theory Spec2Isabelle
  imports Main
begin

section \<open>Bytes, C strings and the character vector\<close>

text \<open>
  The repository is a calculator for sparse multivariate polynomials. The module embedded
  here is \<^verbatim>\<open>parse.c\<close>: it converts one input line, held in a character vector, into a
  \<^verbatim>\<open>Line\<close> value and prints a diagnostic on the error stream when the line is wrong.

  A \<^verbatim>\<open>char\<close> is a byte, a \<^verbatim>\<open>char *\<close> into the line buffer is modelled as the part of the
  buffer from the pointer on (so \<^verbatim>\<open>p + 1\<close> is \<open>tl p\<close> and \<^verbatim>\<open>p + n\<close> is \<open>drop n p\<close>),
  and the byte under a pointer is \<open>peek\<close>. The integer types are those of the LP64 data
  model: \<^verbatim>\<open>int\<close> has 32 bits, \<^verbatim>\<open>long\<close>, \<^verbatim>\<open>long long\<close> and \<^verbatim>\<open>size_t\<close> have 64 bits.
\<close>

abbreviation NUL :: char where
  "NUL \<equiv> CHR 0x00"

definition peek :: "string \<Rightarrow> char" where
  "peek p = (case p of [] \<Rightarrow> NUL | c # _ \<Rightarrow> c)"

text \<open>
  \<^verbatim>\<open>CVector\<close> (declared in \<^verbatim>\<open>vector.h\<close>): the bytes of the line and their number, the
  terminating NUL included. \<^verbatim>\<open>parse.c\<close> reads the fields \<^verbatim>\<open>items\<close> and \<^verbatim>\<open>size\<close> only
  (\<open>size_cv\<close> here, since \<open>size\<close> is a constant of HOL).
\<close>

record CVector =
  items :: string
  size_cv :: nat

text \<open>
  The line reader hands over a line without its newline and terminated by NUL
  (the comment of \<^verbatim>\<open>IsEqual\<close> calls its vector one terminated by NUL). The content may itself
  contain NUL bytes, when the input does. The size of such a vector is at least 1, so the
  \<^verbatim>\<open>size - 1\<close> of the module never wraps around, and every index the module reads after
  its tests of the size is inside the buffer.
\<close>

definition CVectorOfLine :: "string \<Rightarrow> CVector" where
  "CVectorOfLine content = \<lparr>items = content @ [NUL], size_cv = length content + 1\<rparr>"

subsection \<open>\<^verbatim>\<open>ctype.h\<close> in the C locale\<close>

text \<open>
  The program does not change the locale. In the C locale the letters are \<^verbatim>\<open>A-Z\<close> and
  \<^verbatim>\<open>a-z\<close>, the digits \<^verbatim>\<open>0-9\<close>, the white space is the space and the bytes 9 to 13; no
  byte above 127 belongs to a class.
\<close>

definition isdigit :: "char \<Rightarrow> bool" where
  "isdigit c \<longleftrightarrow> 48 \<le> (of_char c :: nat) \<and> (of_char c :: nat) \<le> 57"

definition isalpha :: "char \<Rightarrow> bool" where
  "isalpha c \<longleftrightarrow> (65 \<le> (of_char c :: nat) \<and> (of_char c :: nat) \<le> 90) \<or>
                 (97 \<le> (of_char c :: nat) \<and> (of_char c :: nat) \<le> 122)"

definition isspace :: "char \<Rightarrow> bool" where
  "isspace c \<longleftrightarrow> (of_char c :: nat) = 32 \<or>
                 (9 \<le> (of_char c :: nat) \<and> (of_char c :: nat) \<le> 13)"

subsection \<open>\<^verbatim>\<open>string.h\<close>\<close>

text \<open>The C string under a pointer: the bytes up to the first NUL.\<close>

definition cstr :: "string \<Rightarrow> string" where
  "cstr p = takeWhile (\<lambda>c. c \<noteq> NUL) p"

definition strlen :: "string \<Rightarrow> nat" where
  "strlen p = length (cstr p)"

text \<open>
  \<^verbatim>\<open>strcmp(a, b) == 0\<close> and \<^verbatim>\<open>strncmp(a, b, n) == 0\<close>: only the comparison with zero is
  used by the module, so the models return it.
\<close>

definition strcmp_eq :: "string \<Rightarrow> string \<Rightarrow> bool" where
  "strcmp_eq a b \<longleftrightarrow> cstr a = cstr b"

definition strncmp_eq :: "string \<Rightarrow> string \<Rightarrow> nat \<Rightarrow> bool" where
  "strncmp_eq a b n \<longleftrightarrow> take n (cstr a) = take n (cstr b)"

subsection \<open>\<^verbatim>\<open>stdlib.h\<close>: the conversions \<^verbatim>\<open>strtol\<close>, \<^verbatim>\<open>strtoll\<close>, \<^verbatim>\<open>strtoull\<close> in base 10\<close>

definition digit_val :: "char \<Rightarrow> nat" where
  "digit_val c = of_char c - 48"

definition digits_val :: "string \<Rightarrow> nat" where
  "digits_val ds = foldl (\<lambda>a c. 10 * a + digit_val c) 0 ds"

text \<open>
  The subject sequence: white space is skipped, one sign is optional, the longest run of
  digits follows. \<open>None\<close> when there is no digit (no conversion is performed); else the
  sign, the magnitude and the pointer to the first byte after the digits.
\<close>

definition strto_scan :: "string \<Rightarrow> (bool \<times> nat \<times> string) option" where
  "strto_scan p =
     (let q = dropWhile isspace p;
          neg = (peek q = CHR ''-'');
          r = (if peek q = CHR ''-'' \<or> peek q = CHR ''+'' then tl q else q);
          ds = takeWhile isdigit r
      in if ds = [] then None else Some (neg, digits_val ds, dropWhile isdigit r))"

definition LLONG_MAX :: int where
  "LLONG_MAX = 2 ^ 63 - 1"

definition LLONG_MIN :: int where
  "LLONG_MIN = - (2 ^ 63)"

definition ULLONG_MAX :: int where
  "ULLONG_MAX = 2 ^ 64 - 1"

definition INT_MAX :: int where
  "INT_MAX = 2 ^ 31 - 1"

text \<open>
  A conversion returns the value, the end pointer, and whether it set \<^verbatim>\<open>errno\<close> to
  \<^verbatim>\<open>ERANGE\<close>. Every caller clears \<^verbatim>\<open>errno\<close> before the call and compares it with \<^verbatim>\<open>ERANGE\<close>
  after it. With no conversion the value is 0 and the end pointer is the start.
\<close>

definition strtoll :: "string \<Rightarrow> int \<times> string \<times> bool" where
  "strtoll p =
     (case strto_scan p of
        None \<Rightarrow> (0, p, False)
      | Some (neg, m, e) \<Rightarrow>
          (let v = (if neg then - int m else int m)
           in if v > LLONG_MAX then (LLONG_MAX, e, True)
              else if v < LLONG_MIN then (LLONG_MIN, e, True)
              else (v, e, False)))"

text \<open>\<^verbatim>\<open>long\<close> is \<^verbatim>\<open>long long\<close> in LP64.\<close>

definition strtol :: "string \<Rightarrow> int \<times> string \<times> bool" where
  "strtol p = strtoll p"

text \<open>A negated magnitude is taken in the unsigned type: modulo \<open>2 ^ 64\<close>.\<close>

definition strtoull :: "string \<Rightarrow> int \<times> string \<times> bool" where
  "strtoull p =
     (case strto_scan p of
        None \<Rightarrow> (0, p, False)
      | Some (neg, m, e) \<Rightarrow>
          (if int m > ULLONG_MAX then (ULLONG_MAX, e, True)
           else if neg then ((2 ^ 64 - int m) mod 2 ^ 64, e, False)
           else (int m, e, False)))"

section \<open>Polynomials and parsed lines\<close>

text \<open>
  \<^verbatim>\<open>poly_coeff_t\<close> is \<^verbatim>\<open>long\<close> and \<^verbatim>\<open>poly_exp_t\<close> is \<^verbatim>\<open>int\<close>. The module performs no
  arithmetic on them: every value it stores comes out of a conversion that has been checked
  against the range of its type, so the values are kept as the integers they denote.
\<close>

type_synonym poly_coeff_t = int
type_synonym poly_exp_t = int

text \<open>
  Modelled from the spec: \<^verbatim>\<open>poly.h\<close> and \<^verbatim>\<open>poly.c\<close> are not among the sources. A polynomial
  is a constant or a sequence of terms, a term an exponent and a nested polynomial.
\<close>

datatype Poly = PolyCoeff poly_coeff_t | PolyMonos "Mono list"
  and Mono = Mono (mono_p: Poly) (mono_exp: poly_exp_t)

definition PolyFromCoeff :: "poly_coeff_t \<Rightarrow> Poly" where
  "PolyFromCoeff c = PolyCoeff c"

definition MonoFromPoly :: "Poly \<Rightarrow> poly_exp_t \<Rightarrow> Mono" where
  "MonoFromPoly q e = Mono q e"

text \<open>
  Modelled from the spec: \<^verbatim>\<open>PolyAddMonos\<close> is not among the sources. It "drops any
  Constant-zero-coefficient terms, merges none, sorts by exponent, and collapses to
  Constant(0) if the result is empty or to Constant(c) if the result is a single term with
  exponent 0 whose coefficient is itself a Constant".
\<close>

definition PolyAddMonos :: "Mono list \<Rightarrow> Poly" where
  "PolyAddMonos ms =
     (let ts = sort_key mono_exp (filter (\<lambda>m. mono_p m \<noteq> PolyCoeff 0) ms)
      in case ts of
           [] \<Rightarrow> PolyCoeff 0
         | [Mono (PolyCoeff c) e] \<Rightarrow> if e = 0 then PolyCoeff c else PolyMonos ts
         | _ \<Rightarrow> PolyMonos ts)"

text \<open>
  Modelled from the spec: \<^verbatim>\<open>line.h\<close> is not among the sources. A parsed line is an error,
  a command with or without an integer argument, or a polynomial. The argument is the value
  of the C variable \<^verbatim>\<open>arg\<close>: a \<^verbatim>\<open>size_t\<close> for \<^verbatim>\<open>DEG_BY\<close> and \<^verbatim>\<open>COMPOSE\<close>, a \<^verbatim>\<open>poly_coeff_t\<close>
  for \<^verbatim>\<open>AT\<close>.
\<close>

datatype Command =
  ZERO | IS_COEFF | IS_ZERO | CLONE | ADD | MUL | NEG | SUB | IS_EQ | DEG | PRINT | POP
  | DEG_BY | AT | COMPOSE

datatype Line =
  WrongLine
  | CommandLine Command
  | CommandLineWithArg Command int
  | PolyLine Poly

section \<open>The error stream\<close>

text \<open>
  \<^verbatim>\<open>PrintErrorMsg\<close> (\<^verbatim>\<open>parse.h\<close>) writes \<^verbatim>\<open>"ERROR %zu %s\n"\<close> to \<^verbatim>\<open>stderr\<close>. A function that
  may print returns, beside its value, the list of the texts it wrote, one per call of
  \<^verbatim>\<open>fprintf\<close>. The line number, a \<^verbatim>\<open>size_t\<close>, is the natural number it denotes, and
  \<open>show_zu\<close> is its decimal form as \<^verbatim>\<open>%zu\<close> prints it.
\<close>

definition digit_char :: "nat \<Rightarrow> char" where
  "digit_char d = ''0123456789'' ! d"

fun show_zu :: "nat \<Rightarrow> string" where
  "show_zu n = (if n < 10 then [digit_char n] else show_zu (n div 10) @ [digit_char (n mod 10)])"

definition PrintErrorMsg :: "nat \<Rightarrow> string \<Rightarrow> string" where
  "PrintErrorMsg lineNr msg = ''ERROR '' @ show_zu lineNr @ '' '' @ msg @ [CHR 0x0A]"

definition DEG_BY_WRONG_VARIABLE :: string where
  "DEG_BY_WRONG_VARIABLE = ''DEG BY WRONG VARIABLE''"

definition AT_WRONG_VALUE :: string where
  "AT_WRONG_VALUE = ''AT WRONG VALUE''"

definition COMPOSE_WRONG_PARAMETER :: string where
  "COMPOSE_WRONG_PARAMETER = ''COMPOSE WRONG PARAMETER''"

definition WRONG_COMMAND :: string where
  "WRONG_COMMAND = ''WRONG COMMAND''"

definition WRONG_POLY :: string where
  "WRONG_POLY = ''WRONG POLY''"

section \<open>The command classifier\<close>

definition IsPrefix :: "string \<Rightarrow> string \<Rightarrow> bool" where
  "IsPrefix pre str \<longleftrightarrow> strncmp_eq pre str (strlen pre)"

definition IsCorrectCommand :: "CVector \<Rightarrow> string \<Rightarrow> bool" where
  "IsCorrectCommand cv str \<longleftrightarrow>
     (let len = strlen str
      in IsPrefix str (items cv) \<and>
         ((size_cv cv > len \<and> isspace (items cv ! len)) \<or>
          (size_cv cv - 1 = len \<and> items cv ! len = NUL)))"

definition IsEqual :: "CVector \<Rightarrow> string \<Rightarrow> bool" where
  "IsEqual cv str \<longleftrightarrow> size_cv cv = strlen str + 1 \<and> strcmp_eq (items cv) str"

definition IsDigitOrMinus :: "char \<Rightarrow> bool" where
  "IsDigitOrMinus c \<longleftrightarrow> isdigit c \<or> c = CHR ''-''"

definition HasDegByAnArgument :: "CVector \<Rightarrow> bool" where
  "HasDegByAnArgument str \<longleftrightarrow>
     size_cv str \<ge> 8 \<and> items str ! 6 = CHR '' '' \<and> isdigit (items str ! 7)"

definition HasComposeAnArgument :: "CVector \<Rightarrow> bool" where
  "HasComposeAnArgument str \<longleftrightarrow>
     size_cv str \<ge> 9 \<and> items str ! 7 = CHR '' '' \<and> isdigit (items str ! 8)"

definition HasAtAnArgument :: "CVector \<Rightarrow> bool" where
  "HasAtAnArgument str \<longleftrightarrow>
     size_cv str \<ge> 4 \<and> items str ! 2 = CHR '' '' \<and> IsDigitOrMinus (items str ! 3)"

text \<open>
  \<^verbatim>\<open>ArgumentError\<close> reads \<^verbatim>\<open>errno\<close> (the flag \<open>erange\<close> of the conversion before it) and the
  end pointer. \<^verbatim>\<open>end - str->items\<close> is the number of bytes of the buffer before \<open>end\<close>.
\<close>

definition ArgumentError :: "CVector \<Rightarrow> bool \<Rightarrow> string \<Rightarrow> bool" where
  "ArgumentError str erange end \<longleftrightarrow>
     erange \<or> peek end \<noteq> NUL \<or> length (items str) - length end \<noteq> size_cv str - 1"

definition ParseCommand :: "CVector \<Rightarrow> nat \<Rightarrow> Line \<times> string list" where
  "ParseCommand str lineNr =
     (if IsEqual str ''ZERO'' then (CommandLine ZERO, [])
      else if IsEqual str ''IS_COEFF'' then (CommandLine IS_COEFF, [])
      else if IsEqual str ''IS_ZERO'' then (CommandLine IS_ZERO, [])
      else if IsEqual str ''CLONE'' then (CommandLine CLONE, [])
      else if IsEqual str ''ADD'' then (CommandLine ADD, [])
      else if IsEqual str ''MUL'' then (CommandLine MUL, [])
      else if IsEqual str ''NEG'' then (CommandLine NEG, [])
      else if IsEqual str ''SUB'' then (CommandLine SUB, [])
      else if IsEqual str ''IS_EQ'' then (CommandLine IS_EQ, [])
      else if IsEqual str ''DEG'' then (CommandLine DEG, [])
      else if IsEqual str ''PRINT'' then (CommandLine PRINT, [])
      else if IsEqual str ''POP'' then (CommandLine POP, [])
      else if IsCorrectCommand str ''DEG_BY'' then
        (if HasDegByAnArgument str then
           (case strtoull (drop 7 (items str)) of (arg, end, erange) \<Rightarrow>
              if ArgumentError str erange end
              then (WrongLine, [PrintErrorMsg lineNr DEG_BY_WRONG_VARIABLE])
              else (CommandLineWithArg DEG_BY arg, []))
         else (WrongLine, [PrintErrorMsg lineNr DEG_BY_WRONG_VARIABLE]))
      else if IsCorrectCommand str ''AT'' then
        (if HasAtAnArgument str then
           (case strtoll (drop 3 (items str)) of (arg, end, erange) \<Rightarrow>
              if ArgumentError str erange end
              then (WrongLine, [PrintErrorMsg lineNr AT_WRONG_VALUE])
              else (CommandLineWithArg AT arg, []))
         else (WrongLine, [PrintErrorMsg lineNr AT_WRONG_VALUE]))
      else if IsCorrectCommand str ''COMPOSE'' then
        (if HasComposeAnArgument str then
           (case strtoull (drop 8 (items str)) of (arg, end, erange) \<Rightarrow>
              if ArgumentError str erange end
              then (WrongLine, [PrintErrorMsg lineNr COMPOSE_WRONG_PARAMETER])
              else (CommandLineWithArg COMPOSE arg, []))
         else (WrongLine, [PrintErrorMsg lineNr COMPOSE_WRONG_PARAMETER]))
      else (WrongLine, [PrintErrorMsg lineNr WRONG_COMMAND]))"

section \<open>The expression parser\<close>

definition IsLegalCaracter :: "char \<Rightarrow> bool" where
  "IsLegalCaracter c \<longleftrightarrow>
     isdigit c \<or> c = CHR ''-'' \<or> c = CHR ''+'' \<or> c = CHR ''('' \<or> c = CHR '')'' \<or> c = CHR '',''"

text \<open>The \<^verbatim>\<open>for\<close> loop of \<^verbatim>\<open>HasIllegalCharacters\<close>, from index \<open>i\<close> on.\<close>

function HasIllegalCharacters_loop :: "CVector \<Rightarrow> nat \<Rightarrow> bool" where
  "HasIllegalCharacters_loop str i =
     (if i < size_cv str - 1 then
        (if \<not> IsLegalCaracter (items str ! i) then True
         else HasIllegalCharacters_loop str (i + 1))
      else False)"
  by pat_completeness auto
termination
  by (relation "measure (\<lambda>(str, i). size_cv str - 1 - i)") auto

definition HasIllegalCharacters :: "CVector \<Rightarrow> bool" where
  "HasIllegalCharacters str = HasIllegalCharacters_loop str 0"

text \<open>
  The counter of \<^verbatim>\<open>AreParenthesesValid\<close> is an \<^verbatim>\<open>int\<close>. Its increment is written with the
  wrap-around of a 32-bit two's complement register (in C the overflow is undefined); the
  decrement happens at a counter that is at least 0 and cannot overflow.
\<close>

definition int32 :: "int \<Rightarrow> int" where
  "int32 x = (x + 2 ^ 31) mod 2 ^ 32 - 2 ^ 31"

fun AreParenthesesValid_loop :: "string \<Rightarrow> int \<Rightarrow> bool" where
  "AreParenthesesValid_loop [] ctr = (ctr = 0)"
| "AreParenthesesValid_loop (c # s) ctr =
     (if c \<noteq> NUL \<and> ctr \<ge> 0 then
        AreParenthesesValid_loop s
          (if c = CHR ''('' then int32 (ctr + 1)
           else if c = CHR '')'' then int32 (ctr - 1)
           else ctr)
      else ctr = 0)"

definition AreParenthesesValid :: "string \<Rightarrow> bool" where
  "AreParenthesesValid s = AreParenthesesValid_loop s 0"

text \<open>
  The parsing functions return through \<^verbatim>\<open>*err\<close> whether they failed and through \<^verbatim>\<open>*end\<close>
  where they stopped. The flag is false when \<^verbatim>\<open>ParsePoly\<close> starts, no function clears it,
  and every caller returns at once when it finds the flag set, without reading \<^verbatim>\<open>*end\<close>
  or the returned value (but to destroy it). So a failure is \<open>None\<close>, and a success is the
  value with the end pointer.
\<close>

definition ParseExp :: "string \<Rightarrow> (poly_exp_t \<times> string) option" where
  "ParseExp begin =
     (if \<not> isdigit (peek begin) then None
      else case strtol begin of (x, end, erange) \<Rightarrow>
        if erange \<or> peek end \<noteq> CHR '')'' \<or> x > INT_MAX then None
        else Some (x, end))"

text \<open>
  \<^verbatim>\<open>ParsePolyHelper_loop\<close> is the \<^verbatim>\<open>while (true)\<close> loop of \<^verbatim>\<open>ParsePolyHelper\<close>, with the
  vector \<^verbatim>\<open>monos\<close> filled so far and the current \<^verbatim>\<open>begin\<close>.
\<close>

function ParsePolyHelper :: "string \<Rightarrow> (Poly \<times> string) option"
  and ParsePolyHelper_loop :: "Mono list \<Rightarrow> string \<Rightarrow> (Poly \<times> string) option"
  and ParseMono :: "string \<Rightarrow> (Mono \<times> string) option" where
  "ParsePolyHelper begin =
     (if peek begin = NUL then None
      else if IsDigitOrMinus (peek begin) then
        (case strtoll begin of (x, end, erange) \<Rightarrow>
           if erange \<or> (peek end \<noteq> CHR '','' \<and> peek end \<noteq> NUL) then None
           else Some (PolyFromCoeff x, end))
      else ParsePolyHelper_loop [] begin)"
| "ParsePolyHelper_loop monos begin =
     (if peek begin \<noteq> CHR ''('' then None
      else case ParseMono (tl begin) of
        None \<Rightarrow> None
      | Some (m, end) \<Rightarrow>
          (let monos' = monos @ [m];
               end' = tl end
           in if peek end' = NUL \<or> peek end' = CHR '','' then Some (PolyAddMonos monos', end')
              else if peek end' \<noteq> CHR ''+'' then None
              else ParsePolyHelper_loop monos' (tl end')))"
| "ParseMono begin =
     (if peek begin = NUL then None
      else case ParsePolyHelper begin of
        None \<Rightarrow> None
      | Some (q, end) \<Rightarrow>
          if peek end = NUL then None
          else case ParseExp (tl end) of
            None \<Rightarrow> None
          | Some (e, end') \<Rightarrow> Some (MonoFromPoly q e, end'))"
  by pat_completeness auto

definition ParsePoly :: "CVector \<Rightarrow> nat \<Rightarrow> Line \<times> string list" where
  "ParsePoly str lineNr =
     (if HasIllegalCharacters str \<or> \<not> AreParenthesesValid (items str)
      then (WrongLine, [PrintErrorMsg lineNr WRONG_POLY])
      else case ParsePolyHelper (items str) of
        None \<Rightarrow> (WrongLine, [PrintErrorMsg lineNr WRONG_POLY])
      | Some (q, end) \<Rightarrow>
          if peek end \<noteq> NUL then (WrongLine, [PrintErrorMsg lineNr WRONG_POLY])
          else (PolyLine q, []))"

section \<open>The entry point\<close>

definition Parse :: "CVector \<Rightarrow> nat \<Rightarrow> Line \<times> string list" where
  "Parse str lineNr =
     (if isalpha (items str ! 0) then ParseCommand str lineNr else ParsePoly str lineNr)"

section \<open>The notions of the specification\<close>

text \<open>
  The definitions of this section follow the words of the specification, not the code; the
  theorems below compare the code with them.
\<close>

text \<open>The first character of a line (the terminating NUL when the line is empty).\<close>

definition first_char :: "string \<Rightarrow> char" where
  "first_char s = (case s of [] \<Rightarrow> NUL | c # _ \<Rightarrow> c)"

text \<open>The diagnostic line \<^verbatim>\<open>ERROR <lineNr> <MESSAGE>\<close>.\<close>

definition diagnostic :: "nat \<Rightarrow> string \<Rightarrow> string" where
  "diagnostic lineNr msg = ''ERROR '' @ show_zu lineNr @ '' '' @ msg @ [CHR 0x0A]"

definition parser_messages :: "string list" where
  "parser_messages =
     [''WRONG COMMAND'', ''WRONG POLY'', ''DEG BY WRONG VARIABLE'', ''AT WRONG VALUE'',
      ''COMPOSE WRONG PARAMETER'']"

text \<open>The legal characters of a polynomial line: a digit, \<open>-\<close>, \<open>+\<close>, \<open>(\<close>, \<open>)\<close>, \<open>,\<close>.\<close>

definition legal_characters :: "char set" where
  "legal_characters = set ''0123456789-+(),''"

text \<open>
  Balanced parentheses: a counter of the open parentheses that returns to exactly zero
  and never goes negative.
\<close>

definition paren_counter :: "string \<Rightarrow> int" where
  "paren_counter s = int (count_list s (CHR ''('')) - int (count_list s (CHR '')''))"

definition balanced :: "string \<Rightarrow> bool" where
  "balanced s \<longleftrightarrow> paren_counter s = 0 \<and> (\<forall>k \<le> length s. 0 \<le> paren_counter (take k s))"

text \<open>The keyword of a command.\<close>

fun keyword :: "Command \<Rightarrow> string" where
  "keyword ZERO = ''ZERO''"
| "keyword IS_COEFF = ''IS_COEFF''"
| "keyword IS_ZERO = ''IS_ZERO''"
| "keyword CLONE = ''CLONE''"
| "keyword ADD = ''ADD''"
| "keyword MUL = ''MUL''"
| "keyword NEG = ''NEG''"
| "keyword SUB = ''SUB''"
| "keyword IS_EQ = ''IS_EQ''"
| "keyword DEG = ''DEG''"
| "keyword PRINT = ''PRINT''"
| "keyword POP = ''POP''"
| "keyword DEG_BY = ''DEG_BY''"
| "keyword AT = ''AT''"
| "keyword COMPOSE = ''COMPOSE''"

text \<open>A digit sequence \<open>digit+\<close>.\<close>

definition digits :: "string \<Rightarrow> bool" where
  "digits ds \<longleftrightarrow> ds \<noteq> [] \<and> list_all isdigit ds"

text \<open>
  The arguments of the commands: \<^verbatim>\<open>DEG_BY\<close> and \<^verbatim>\<open>COMPOSE\<close> take a non-negative integer
  (a \<^verbatim>\<open>size_t\<close>), \<^verbatim>\<open>AT\<close> a signed integer in the range of the coefficients. The argument
  of a line is what follows the keyword and one space.
\<close>

definition unsigned_argument :: "string \<Rightarrow> int option" where
  "unsigned_argument a =
     (if digits a \<and> int (digits_val a) \<le> 2 ^ 64 - 1 then Some (int (digits_val a)) else None)"

definition signed_argument :: "string \<Rightarrow> int option" where
  "signed_argument a =
     (if a \<noteq> [] \<and> hd a = CHR ''-'' then
        (if digits (tl a) \<and> - (2 ^ 63) \<le> - int (digits_val (tl a))
         then Some (- int (digits_val (tl a))) else None)
      else
        (if digits a \<and> int (digits_val a) \<le> 2 ^ 63 - 1 then Some (int (digits_val a)) else None))"

definition command_argument :: "string \<Rightarrow> string \<Rightarrow> string option" where
  "command_argument kw s =
     (if take (length kw + 1) s = kw @ '' '' then Some (drop (length kw + 1) s) else None)"

text \<open>
  The grammar of a polynomial line, as syntax trees with the text they stand for:
  \<^verbatim>\<open>Polynomial := Coefficient | TermSum\<close>, \<^verbatim>\<open>Coefficient := ['-'] digit+\<close>,
  \<^verbatim>\<open>TermSum := Term ('+' Term)*\<close>, \<^verbatim>\<open>Term := '(' Polynomial ',' Exponent ')'\<close>,
  \<^verbatim>\<open>Exponent := digit+\<close>. A coefficient carries its sign and its digit sequence, a term its
  polynomial and the digit sequence of its exponent.
\<close>

datatype Polynomial = Coefficient bool string | TermSum "Term list"
  and Term = Term Polynomial string

fun text_of :: "Polynomial \<Rightarrow> string"
  and text_of_terms :: "Term list \<Rightarrow> string"
  and text_of_term :: "Term \<Rightarrow> string" where
  "text_of (Coefficient neg ds) = (if neg then CHR ''-'' # ds else ds)"
| "text_of (TermSum ts) = text_of_terms ts"
| "text_of_terms [] = []"
| "text_of_terms (t # ts) =
     (if ts = [] then text_of_term t else text_of_term t @ ''+'' @ text_of_terms ts)"
| "text_of_term (Term q e) = ''('' @ text_of q @ '','' @ e @ '')''"

text \<open>A tree of the grammar: digit sequences are not empty, a sum has a term.\<close>

fun grammatical :: "Polynomial \<Rightarrow> bool"
  and grammatical_terms :: "Term list \<Rightarrow> bool"
  and grammatical_term :: "Term \<Rightarrow> bool" where
  "grammatical (Coefficient neg ds) = digits ds"
| "grammatical (TermSum ts) = (ts \<noteq> [] \<and> grammatical_terms ts)"
| "grammatical_terms [] = True"
| "grammatical_terms (t # ts) = (grammatical_term t \<and> grammatical_terms ts)"
| "grammatical_term (Term q e) = (grammatical q \<and> digits e)"

text \<open>
  The ranges: a coefficient fits the signed 64-bit range, an exponent is at most
  \<^verbatim>\<open>INT_MAX\<close>.
\<close>

definition coefficient_value :: "bool \<Rightarrow> string \<Rightarrow> int" where
  "coefficient_value neg ds = (if neg then - int (digits_val ds) else int (digits_val ds))"

fun in_range :: "Polynomial \<Rightarrow> bool"
  and in_range_terms :: "Term list \<Rightarrow> bool"
  and in_range_term :: "Term \<Rightarrow> bool" where
  "in_range (Coefficient neg ds) =
     (- (2 ^ 63) \<le> coefficient_value neg ds \<and> coefficient_value neg ds \<le> 2 ^ 63 - 1)"
| "in_range (TermSum ts) = in_range_terms ts"
| "in_range_terms [] = True"
| "in_range_terms (t # ts) = (in_range_term t \<and> in_range_terms ts)"
| "in_range_term (Term q e) = (in_range q \<and> int (digits_val e) \<le> 2 ^ 31 - 1)"

text \<open>The polynomial a tree denotes, built with the constructors of the engine.\<close>

fun poly_of :: "Polynomial \<Rightarrow> Poly"
  and monos_of :: "Term list \<Rightarrow> Mono list"
  and mono_of :: "Term \<Rightarrow> Mono" where
  "poly_of (Coefficient neg ds) = PolyFromCoeff (coefficient_value neg ds)"
| "poly_of (TermSum ts) = PolyAddMonos (monos_of ts)"
| "monos_of [] = []"
| "monos_of (t # ts) = mono_of t # monos_of ts"
| "mono_of (Term q e) = MonoFromPoly (poly_of q) (int (digits_val e))"

section \<open>Termination of the expression parser\<close>

text \<open>
  Termination: the three functions never return an end pointer before their start, so
  each turn of the loop starts further into the buffer. This is shown first for the
  arguments on which the functions are known to terminate.
\<close>

lemma strto_scan_length:
  assumes "strto_scan s = Some (neg, m, e)"
  shows "length e \<le> length s"
proof -
  let ?q = "dropWhile isspace s"
  let ?r = "if peek ?q = CHR ''-'' \<or> peek ?q = CHR ''+'' then tl ?q else ?q"
  from assms have e: "e = dropWhile isdigit ?r"
    by (auto simp: strto_scan_def Let_def split: if_splits)
  have "length e \<le> length ?r" unfolding e by (rule length_dropWhile_le)
  also have "\<dots> \<le> length ?q" by simp
  also have "\<dots> \<le> length s" by (rule length_dropWhile_le)
  finally show ?thesis .
qed

lemma strtoll_length: "strtoll s = (x, e, r) \<Longrightarrow> length e \<le> length s"
  by (auto simp: strtoll_def Let_def split: option.splits if_splits dest: strto_scan_length)

lemma ParseExp_length: "ParseExp b = Some (x, e) \<Longrightarrow> length e \<le> length b"
  by (auto simp: ParseExp_def strtol_def split: if_splits prod.splits dest: strtoll_length)

lemma parse_length_partial:
  "ParsePolyHelper_ParsePolyHelper_loop_ParseMono_dom (Inl b) \<Longrightarrow>
     ParsePolyHelper b = Some (q, e) \<Longrightarrow> length e \<le> length b"
  "ParsePolyHelper_ParsePolyHelper_loop_ParseMono_dom (Inr (Inl (ms, b1))) \<Longrightarrow>
     ParsePolyHelper_loop ms b1 = Some (q1, e1) \<Longrightarrow> length e1 \<le> length b1"
  "ParsePolyHelper_ParsePolyHelper_loop_ParseMono_dom (Inr (Inr b2)) \<Longrightarrow>
     ParseMono b2 = Some (m, e2) \<Longrightarrow> length e2 \<le> length b2"
proof (induction b and ms b1 and b2 arbitrary: q e and q1 e1 and m e2
    rule: ParsePolyHelper_ParsePolyHelper_loop_ParseMono.pinduct)
  case (1 bg)
  then show ?case
    by (auto simp: ParsePolyHelper.psimps split: if_splits prod.splits dest: strtoll_length)
next
  case (2 mns bg)
  from "2.prems" "2.hyps" obtain m' en where
    pm: "ParseMono (tl bg) = Some (m', en)" and par: "peek bg = CHR ''(''"
    by (auto simp: ParsePolyHelper_loop.psimps split: if_splits option.splits)
  from "2.IH"(1) [OF _ pm] par have le1: "length en \<le> length (tl bg)" by simp
  show ?case
  proof (cases "peek (tl en) = NUL \<or> peek (tl en) = CHR '',''")
    case True
    with "2.prems" "2.hyps" pm par have "e1 = tl en"
      by (simp add: ParsePolyHelper_loop.psimps Let_def)
    with le1 show ?thesis by simp
  next
    case False
    with "2.prems" "2.hyps" pm par have plus: "peek (tl en) = CHR ''+''"
      and rec: "ParsePolyHelper_loop (mns @ [m']) (tl (tl en)) = Some (q1, e1)"
      by (auto simp: ParsePolyHelper_loop.psimps Let_def split: if_splits)
    from "2.IH"(2) [OF _ pm refl refl refl False _ rec] par plus
    have "length e1 \<le> length (tl (tl en))" by simp
    with le1 show ?thesis by simp
  qed
next
  case (3 bg)
  then show ?case
    by (fastforce simp: ParseMono.psimps split: if_splits option.splits dest: ParseExp_length)
qed

termination ParsePolyHelper
proof (relation "measure (\<lambda>x. case x of Inl b \<Rightarrow> 3 * length b + 1
                                     | Inr (Inl (ms, b)) \<Rightarrow> 3 * length b
                                     | Inr (Inr b) \<Rightarrow> 3 * length b + 2)", goal_cases)
  case 1
  then show ?case by simp
next
  case (2 bg)
  then show ?case by simp
next
  case (3 mns bg)
  then show ?case by (cases bg) (auto simp: peek_def)
next
  case (4 mns bg x2 x y xa xb)
  from 4 have "ParseMono (tl bg) = Some (x, y)" by simp
  with 4 have "length y \<le> length (tl bg)" by (auto dest: parse_length_partial(3))
  moreover from 4 have "bg \<noteq> []" by (auto simp: peek_def)
  ultimately show ?case using 4 by (cases bg) auto
next
  case (5 bg)
  then show ?case by simp
qed

text \<open>
  The equations of the recursive functions are unfolded on demand only: they rewrite a
  call into a term with further calls.
\<close>

declare ParsePolyHelper.simps [simp del]
declare ParsePolyHelper_loop.simps [simp del]
declare ParseMono.simps [simp del]
declare HasIllegalCharacters_loop.simps [simp del]

section \<open>Facts about the C string functions and the keyword tests\<close>

lemma peek_simps [simp]: "peek [] = NUL" "peek (c # s) = c"
  by (simp_all add: peek_def)

lemma peek_append [simp]: "s \<noteq> [] \<Longrightarrow> peek (s @ r) = peek s"
  by (cases s) simp_all

lemma cstr_append: "NUL \<notin> set a \<Longrightarrow> cstr (a @ b) = a @ cstr b"
  by (induction a) (auto simp: cstr_def)

lemma cstr_id: "NUL \<notin> set s \<Longrightarrow> cstr s = s"
  using cstr_append [of s "[]"] by (simp add: cstr_def)

lemma cstr_prefix: "cstr s = take (length (cstr s)) s"
  unfolding cstr_def by (rule takeWhile_eq_take)

lemma cstr_append_NUL [simp]: "cstr (s @ [NUL]) = cstr s"
  by (induction s) (simp_all add: cstr_def)

lemma cstr_length_less: "NUL \<in> set s \<Longrightarrow> length (cstr s) < length s"
  by (induction s) (auto simp: cstr_def)

lemma IsEqual_iff:
  assumes "NUL \<notin> set kw"
  shows "IsEqual (CVectorOfLine s) kw \<longleftrightarrow> s = kw"
proof
  assume eq: "IsEqual (CVectorOfLine s) kw"
  with assms have len: "length s = length kw" and c: "cstr s = kw"
    by (simp_all add: IsEqual_def CVectorOfLine_def strlen_def strcmp_eq_def cstr_id)
  have "cstr s = take (length (cstr s)) s" by (rule cstr_prefix)
  with c len show "s = kw" by simp
next
  assume "s = kw"
  with assms show "IsEqual (CVectorOfLine s) kw"
    by (simp add: IsEqual_def CVectorOfLine_def strlen_def strcmp_eq_def cstr_id)
qed

lemma IsEqual_NUL:
  assumes "NUL \<in> set s"
  shows "\<not> IsEqual (CVectorOfLine s) kw"
proof
  assume "IsEqual (CVectorOfLine s) kw"
  then have "length s = length (cstr kw)" and "cstr s = cstr kw"
    by (simp_all add: IsEqual_def CVectorOfLine_def strlen_def strcmp_eq_def)
  then have "length (cstr s) = length s" by simp
  with cstr_length_less [OF assms] show False by simp
qed

lemma IsCorrectCommand_iff:
  assumes "NUL \<notin> set kw"
  shows "IsCorrectCommand (CVectorOfLine s) kw \<longleftrightarrow>
         s = kw \<or> (\<exists>w r. s = kw @ w # r \<and> isspace w)"
proof
  let ?n = "length kw"
  assume a: "IsCorrectCommand (CVectorOfLine s) kw"
  with assms have pre: "kw = take ?n (cstr s)"
    and alt: "(length s + 1 > ?n \<and> isspace ((s @ [NUL]) ! ?n)) \<or>
              (length s = ?n \<and> (s @ [NUL]) ! ?n = NUL)"
    by (simp_all add: IsCorrectCommand_def IsPrefix_def strncmp_eq_def strlen_def
        CVectorOfLine_def cstr_id Let_def)
  from pre have "?n \<le> length (cstr s)"
    by (metis length_take min.cobounded2 min_def nat_le_linear)
  with pre cstr_prefix [of s] have tk: "take ?n s = kw"
    by (metis min.absorb1 take_take)
  from alt show "s = kw \<or> (\<exists>w r. s = kw @ w # r \<and> isspace w)"
  proof
    assume "length s = ?n \<and> (s @ [NUL]) ! ?n = NUL"
    with tk show ?thesis by simp
  next
    assume b: "length s + 1 > ?n \<and> isspace ((s @ [NUL]) ! ?n)"
    have "?n \<noteq> length s"
    proof
      assume "?n = length s"
      with b have "isspace NUL" by (simp add: nth_append)
      then show False by (simp add: isspace_def)
    qed
    with b have lt: "?n < length s" by simp
    with b have sp: "isspace (s ! ?n)" by (simp add: nth_append)
    from lt have "s = take ?n s @ s ! ?n # drop (Suc ?n) s"
      by (simp add: id_take_nth_drop)
    with tk sp show ?thesis by metis
  qed
next
  assume "s = kw \<or> (\<exists>w r. s = kw @ w # r \<and> isspace w)"
  then show "IsCorrectCommand (CVectorOfLine s) kw"
  proof
    assume "s = kw"
    with assms show ?thesis
      by (simp add: IsCorrectCommand_def IsPrefix_def strncmp_eq_def strlen_def
          CVectorOfLine_def cstr_id Let_def nth_append)
  next
    assume "\<exists>w r. s = kw @ w # r \<and> isspace w"
    then obtain w r where s: "s = kw @ w # r" and w: "isspace w" by blast
    with assms show ?thesis
      by (simp add: IsCorrectCommand_def IsPrefix_def strncmp_eq_def strlen_def
          CVectorOfLine_def cstr_id cstr_append Let_def nth_append)
  qed
qed

section \<open>Facts about the conversions\<close>

lemma isdigit_not_isspace: "isdigit c \<Longrightarrow> \<not> isspace c"
  by (auto simp: isdigit_def isspace_def)

lemma isdigit_not_sign: "isdigit c \<Longrightarrow> c \<noteq> CHR ''-'' \<and> c \<noteq> CHR ''+''"
  by (auto simp: isdigit_def)

lemma not_isdigit_NUL [simp]: "\<not> isdigit NUL"
  by (simp add: isdigit_def)

lemma not_isspace_minus [simp]: "\<not> isspace (CHR ''-'')"
  by (simp add: isspace_def)

lemma strto_scan_digit:
  assumes "isdigit (peek s)"
  shows "strto_scan s = Some (False, digits_val (takeWhile isdigit s), dropWhile isdigit s)"
proof -
  from assms obtain c r where s: "s = c # r" and c: "isdigit c"
    by (cases s) auto
  from c have "\<not> isspace c" "c \<noteq> CHR ''-''" "c \<noteq> CHR ''+''"
    using isdigit_not_isspace isdigit_not_sign by blast+
  with s c show ?thesis by (simp add: strto_scan_def)
qed

lemma strto_scan_minus:
  assumes "peek s = CHR ''-''"
  shows "strto_scan s =
    (if isdigit (peek (tl s))
     then Some (True, digits_val (takeWhile isdigit (tl s)), dropWhile isdigit (tl s))
     else None)"
proof -
  from assms obtain r where s: "s = CHR ''-'' # r"
    by (cases s) auto
  show ?thesis
  proof (cases r)
    case Nil
    with s show ?thesis by (simp add: strto_scan_def)
  next
    case (Cons d r')
    with s show ?thesis by (simp add: strto_scan_def)
  qed
qed

lemma takeWhile_isdigit_NUL [simp]: "takeWhile isdigit (r @ NUL # t) = takeWhile isdigit r"
  by (induction r) simp_all

lemma dropWhile_isdigit_NUL [simp]:
  "dropWhile isdigit (r @ NUL # t) = dropWhile isdigit r @ NUL # t"
  by (induction r) simp_all

section \<open>Evaluation on concrete lines\<close>

lemmas line_eval =
  CVectorOfLine_def Parse_def ParsePoly_def HasIllegalCharacters_def AreParenthesesValid_def
  IsLegalCaracter_def IsDigitOrMinus_def isdigit_def isalpha_def isspace_def int32_def
  ParseExp_def strtol_def strtoll_def strtoull_def strto_scan_def digits_val_def digit_val_def
  LLONG_MAX_def LLONG_MIN_def ULLONG_MAX_def INT_MAX_def
  PolyFromCoeff_def MonoFromPoly_def PolyAddMonos_def
  PrintErrorMsg_def digit_char_def WRONG_POLY_def WRONG_COMMAND_def DEG_BY_WRONG_VARIABLE_def
  AT_WRONG_VALUE_def COMPOSE_WRONG_PARAMETER_def
  ParseCommand_def IsEqual_def IsCorrectCommand_def IsPrefix_def strlen_def strcmp_eq_def
  strncmp_eq_def cstr_def HasDegByAnArgument_def HasAtAnArgument_def HasComposeAnArgument_def
  ArgumentError_def ParsePolyHelper.simps ParsePolyHelper_loop.simps ParseMono.simps
  HasIllegalCharacters_loop.simps

lemma ex1: "Parse (CVectorOfLine ''DEG_BY x'') 1 = (WrongLine, [''ERROR 1 DEG BY WRONG VARIABLE'' @ [CHR 0x0A]])"
  by (simp add: line_eval)

lemma ex2: "Parse (CVectorOfLine ''DEG_BY 18446744073709551615'') 1 = (CommandLineWithArg DEG_BY 18446744073709551615, [])"
  by (simp add: line_eval)

lemma ex3: "Parse (CVectorOfLine ''(1,2)+(3,0)'') 1 = (PolyLine (PolyMonos [Mono (PolyCoeff 3) 0, Mono (PolyCoeff 1) 2]), [])"
  by (simp add: line_eval)

lemma ex4: "Parse (CVectorOfLine '''') 7 = (WrongLine, [''ERROR 7 WRONG POLY'' @ [CHR 0x0A]])"
  by (simp add: line_eval)

section \<open>The shape of the results\<close>

lemma items_CVectorOfLine [simp]: "items (CVectorOfLine s) = s @ [NUL]"
  by (simp add: CVectorOfLine_def)

lemma size_cv_CVectorOfLine [simp]: "size_cv (CVectorOfLine s) = length s + 1"
  by (simp add: CVectorOfLine_def)

lemma first_item: "items (CVectorOfLine s) ! 0 = first_char s"
  by (cases s) (simp_all add: first_char_def)

lemma PrintErrorMsg_diagnostic: "PrintErrorMsg n msg = diagnostic n msg"
  by (simp add: PrintErrorMsg_def diagnostic_def)

lemma diagnostic_inject [simp]: "diagnostic n a = diagnostic n b \<longleftrightarrow> a = b"
  by (simp add: diagnostic_def)

lemma ParseCommand_result:
  assumes "\<And>c. P (CommandLine c, [])"
    and "\<And>c a. P (CommandLineWithArg c a, [])"
    and "P (WrongLine, [PrintErrorMsg n DEG_BY_WRONG_VARIABLE])"
    and "P (WrongLine, [PrintErrorMsg n AT_WRONG_VALUE])"
    and "P (WrongLine, [PrintErrorMsg n COMPOSE_WRONG_PARAMETER])"
    and "P (WrongLine, [PrintErrorMsg n WRONG_COMMAND])"
  shows "P (ParseCommand cv n)"
  unfolding ParseCommand_def by (simp add: assms split: prod.splits)

lemma ParsePoly_result:
  assumes "\<And>q. P (PolyLine q, [])"
    and "P (WrongLine, [PrintErrorMsg n WRONG_POLY])"
  shows "P (ParsePoly cv n)"
  unfolding ParsePoly_def by (simp add: assms split: option.splits)

lemma ParseCommand_not_poly1: "fst (ParseCommand cv n) \<noteq> PolyLine q"
  by (rule ParseCommand_result [where P = "\<lambda>r. fst r \<noteq> PolyLine q"]) simp_all

lemma ParseCommand_not_poly2:
  "ParseCommand cv n \<noteq> (WrongLine, [PrintErrorMsg n WRONG_POLY])"
  by (rule ParseCommand_result [where P = "\<lambda>r. r \<noteq> (WrongLine, [PrintErrorMsg n WRONG_POLY])"])
    (simp_all add: PrintErrorMsg_diagnostic DEG_BY_WRONG_VARIABLE_def AT_WRONG_VALUE_def
        COMPOSE_WRONG_PARAMETER_def WRONG_COMMAND_def WRONG_POLY_def)

lemma ParseCommand_neq_ParsePoly: "ParseCommand cv n \<noteq> ParsePoly cv n"
proof (rule ParsePoly_result [where P = "\<lambda>r. ParseCommand cv n \<noteq> r"])
  fix q
  show "ParseCommand cv n \<noteq> (PolyLine q, [])"
    using ParseCommand_not_poly1 [of cv n q] by (metis fst_conv)
next
  show "ParseCommand cv n \<noteq> (WrongLine, [PrintErrorMsg n WRONG_POLY])"
    by (rule ParseCommand_not_poly2)
qed

section \<open>Routing of a line\<close>

text \<open>
  C6: for every input line, \<^verbatim>\<open>Parse\<close> hands the line to the command classifier if and only
  if its first character is alphabetic, and to the expression parser otherwise. The two
  never return the same result, so the result of \<^verbatim>\<open>Parse\<close> tells which one ran.
\<close>

theorem C6_routing:
  "(Parse (CVectorOfLine s) n = ParseCommand (CVectorOfLine s) n \<longleftrightarrow> isalpha (first_char s)) \<and>
   (Parse (CVectorOfLine s) n = ParsePoly (CVectorOfLine s) n \<longleftrightarrow> \<not> isalpha (first_char s))"
proof (cases "isalpha (first_char s)")
  case True
  then have "Parse (CVectorOfLine s) n = ParseCommand (CVectorOfLine s) n"
    by (simp add: Parse_def first_item del: items_CVectorOfLine)
  with True show ?thesis
    using ParseCommand_neq_ParsePoly [of "CVectorOfLine s" n] by simp
next
  case False
  then have "Parse (CVectorOfLine s) n = ParsePoly (CVectorOfLine s) n"
    by (simp add: Parse_def first_item del: items_CVectorOfLine)
  with False show ?thesis
    using ParseCommand_neq_ParsePoly [of "CVectorOfLine s" n] by simp
qed

theorem C6_routing_witness:
  "(Parse (CVectorOfLine ''POP'') 3 = ParseCommand (CVectorOfLine ''POP'') 3
      \<longleftrightarrow> isalpha (first_char ''POP'')) \<and>
   (Parse (CVectorOfLine ''POP'') 3 = ParsePoly (CVectorOfLine ''POP'') 3
      \<longleftrightarrow> \<not> isalpha (first_char ''POP''))"
  by (rule C6_routing)

section \<open>The empty line\<close>

text \<open>
  C9: the empty line is stored as the single byte NUL. \<^verbatim>\<open>Parse\<close> hands it to the expression
  parser (NUL is not alphabetic), both checks made before the structural parsing pass, the
  structural parsing fails, and the result is the error variant with the diagnostic
  \<^verbatim>\<open>WRONG POLY\<close>.
\<close>

theorem C9_empty_line:
  "items (CVectorOfLine []) = [NUL] \<and>
   \<not> isalpha (items (CVectorOfLine []) ! 0) \<and>
   Parse (CVectorOfLine []) n = ParsePoly (CVectorOfLine []) n \<and>
   \<not> HasIllegalCharacters (CVectorOfLine []) \<and>
   AreParenthesesValid (items (CVectorOfLine [])) \<and>
   ParsePolyHelper (items (CVectorOfLine [])) = None \<and>
   Parse (CVectorOfLine []) n = (WrongLine, [diagnostic n ''WRONG POLY''])"
  by (simp add: Parse_def ParsePoly_def isalpha_def HasIllegalCharacters_def
      HasIllegalCharacters_loop.simps AreParenthesesValid_def ParsePolyHelper.simps
      PrintErrorMsg_diagnostic WRONG_POLY_def)

theorem C9_empty_line_witness:
  "Parse (CVectorOfLine []) 7 = ParsePoly (CVectorOfLine []) 7 \<and>
   ParsePolyHelper (items (CVectorOfLine [])) = None \<and>
   Parse (CVectorOfLine []) 7 = (WrongLine, [''ERROR 7 WRONG POLY'' @ [CHR 0x0A]])"
  using C9_empty_line [of 7] by (auto simp: diagnostic_def digit_char_def)

section \<open>The two checks made before the structural parsing\<close>

lemma isdigit_iff: "isdigit c \<longleftrightarrow> c \<in> set ''0123456789''"
proof
  assume "isdigit c"
  then have "(of_char c :: nat) = of_char (CHR ''0'') \<or> (of_char c :: nat) = of_char (CHR ''1'') \<or>
    (of_char c :: nat) = of_char (CHR ''2'') \<or> (of_char c :: nat) = of_char (CHR ''3'') \<or>
    (of_char c :: nat) = of_char (CHR ''4'') \<or> (of_char c :: nat) = of_char (CHR ''5'') \<or>
    (of_char c :: nat) = of_char (CHR ''6'') \<or> (of_char c :: nat) = of_char (CHR ''7'') \<or>
    (of_char c :: nat) = of_char (CHR ''8'') \<or> (of_char c :: nat) = of_char (CHR ''9'')"
    by (simp add: isdigit_def) arith
  then have "c = CHR ''0'' \<or> c = CHR ''1'' \<or> c = CHR ''2'' \<or> c = CHR ''3'' \<or> c = CHR ''4'' \<or>
    c = CHR ''5'' \<or> c = CHR ''6'' \<or> c = CHR ''7'' \<or> c = CHR ''8'' \<or> c = CHR ''9''"
    by (simp only: of_char_eq_iff)
  then show "c \<in> set ''0123456789''"
    by auto
next
  assume "c \<in> set ''0123456789''"
  then show "isdigit c" by (auto simp: isdigit_def)
qed

lemma IsLegalCaracter_iff: "IsLegalCaracter c \<longleftrightarrow> c \<in> legal_characters"
  by (auto simp: IsLegalCaracter_def legal_characters_def isdigit_iff)

lemma HasIllegalCharacters_loop_iff:
  "HasIllegalCharacters_loop cv i \<longleftrightarrow>
     (\<exists>j. i \<le> j \<and> j < size_cv cv - 1 \<and> \<not> IsLegalCaracter (items cv ! j))"
proof (induction cv i rule: HasIllegalCharacters_loop.induct)
  case (1 str i)
  show ?case
  proof (cases "i < size_cv str - 1")
    case False
    then show ?thesis by (simp add: HasIllegalCharacters_loop.simps [of str i])
  next
    case True
    show ?thesis
    proof (cases "IsLegalCaracter (items str ! i)")
      case False
      with True show ?thesis
        by (auto simp: HasIllegalCharacters_loop.simps [of str i])
    next
      case legal: True
      have "(\<exists>j. i \<le> j \<and> j < size_cv str - 1 \<and> \<not> IsLegalCaracter (items str ! j)) \<longleftrightarrow>
            (\<exists>j. i + 1 \<le> j \<and> j < size_cv str - 1 \<and> \<not> IsLegalCaracter (items str ! j))"
        using legal by (metis Suc_eq_plus1 Suc_leI le_neq_implies_less Suc_leD)
      with "1.IH" [OF True] legal True show ?thesis
        by (simp add: HasIllegalCharacters_loop.simps [of str i])
    qed
  qed
qed

lemma HasIllegalCharacters_iff:
  "HasIllegalCharacters (CVectorOfLine s) \<longleftrightarrow> (\<exists>c \<in> set s. c \<notin> legal_characters)"
proof -
  have "HasIllegalCharacters (CVectorOfLine s) \<longleftrightarrow>
        (\<exists>j < length s. \<not> IsLegalCaracter (s ! j))"
    by (auto simp: HasIllegalCharacters_def HasIllegalCharacters_loop_iff nth_append)
  also have "\<dots> \<longleftrightarrow> (\<exists>c \<in> set s. \<not> IsLegalCaracter c)"
    by (metis in_set_conv_nth)
  finally show ?thesis
    by (simp add: IsLegalCaracter_iff)
qed

lemma NUL_not_legal: "NUL \<notin> legal_characters"
  by (simp add: legal_characters_def)

lemma paren_counter_Nil [simp]: "paren_counter [] = 0"
  by (simp add: paren_counter_def)

lemma paren_counter_Cons [simp]:
  "paren_counter (c # s) =
     (if c = CHR ''('' then 1 else if c = CHR '')'' then - 1 else 0) + paren_counter s"
  by (simp add: paren_counter_def)

lemma AreParenthesesValid_loop_negative: "ctr < 0 \<Longrightarrow> \<not> AreParenthesesValid_loop s ctr"
  by (cases s) simp_all

lemma int32_increment:
  assumes "0 \<le> ctr" and "ctr < 2 ^ 31"
  shows "int32 (ctr + 1) = ctr + 1 \<or> int32 (ctr + 1) < 0"
proof (cases "ctr + 1 < 2 ^ 31")
  case True
  with assms show ?thesis by (simp add: int32_def)
next
  case False
  with assms have "ctr + 1 = 2 ^ 31" by simp
  then show ?thesis by (simp add: int32_def)
qed

lemma int32_decrement:
  assumes "0 \<le> ctr" and "ctr < 2 ^ 31"
  shows "int32 (ctr - 1) = ctr - 1"
  using assms by (simp add: int32_def)

lemma AreParenthesesValid_loop_balanced:
  assumes "AreParenthesesValid_loop (s @ NUL # r) ctr"
    and "NUL \<notin> set s" and "0 \<le> ctr" and "ctr < 2 ^ 31"
  shows "ctr + paren_counter s = 0 \<and> (\<forall>k \<le> length s. 0 \<le> ctr + paren_counter (take k s))"
  using assms
proof (induction s arbitrary: ctr)
  case Nil
  then show ?case by simp
next
  case (Cons c s)
  let ?ctr' = "if c = CHR ''('' then int32 (ctr + 1)
               else if c = CHR '')'' then int32 (ctr - 1) else ctr"
  let ?d = "if c = CHR ''('' then 1 else if c = CHR '')'' then - 1 else (0::int)"
  from Cons.prems have run: "AreParenthesesValid_loop (s @ NUL # r) ?ctr'"
    by (auto split: if_splits)
  then have nonneg: "0 \<le> ?ctr'"
    using AreParenthesesValid_loop_negative [of ?ctr' "s @ NUL # r"] by linarith
  have eq: "?ctr' = ctr + ?d"
    using int32_increment [OF Cons.prems(3,4)] int32_decrement [OF Cons.prems(3,4)] nonneg
    by (auto split: if_splits)
  from nonneg eq have upper: "?ctr' < 2 ^ 31"
    using int32_increment [OF Cons.prems(3,4)] Cons.prems(4)
    by (auto simp: int32_def split: if_splits)
  from Cons.prems(2) have "NUL \<notin> set s" by simp
  from Cons.IH [OF run this nonneg upper]
  have IH: "?ctr' + paren_counter s = 0"
    "\<And>k. k \<le> length s \<Longrightarrow> 0 \<le> ?ctr' + paren_counter (take k s)"
    by blast+
  have "0 \<le> ctr + paren_counter (take k (c # s))" if "k \<le> length (c # s)" for k
  proof (cases k)
    case 0
    with Cons.prems(3) show ?thesis by simp
  next
    case (Suc k')
    with that have "k' \<le> length s" by simp
    from IH(2) [OF this] eq Suc show ?thesis by (simp split: if_splits)
  qed
  moreover from IH(1) eq have "ctr + paren_counter (c # s) = 0"
    by (simp split: if_splits)
  ultimately show ?case by blast
qed

lemma AreParenthesesValid_balanced:
  assumes "AreParenthesesValid (s @ [NUL])" and "NUL \<notin> set s"
  shows "balanced s"
  using AreParenthesesValid_loop_balanced [of s "[]" 0] assms
  by (simp add: AreParenthesesValid_def balanced_def)

section \<open>Rejection before the structural parsing\<close>

text \<open>
  C1: when a line contains a character other than a digit, \<open>-\<close>, \<open>+\<close>, \<open>(\<close>, \<open>)\<close>, \<open>,\<close>, or
  its parentheses are not balanced, one of the two checks at the start of \<^verbatim>\<open>ParsePoly\<close>
  fires: the line is rejected with the diagnostic \<^verbatim>\<open>WRONG POLY\<close> by the first branch of
  \<^verbatim>\<open>ParsePoly\<close>, which does not call the structural parser. So is every such line that
  \<^verbatim>\<open>Parse\<close> routes to the expression parser.
\<close>

theorem C1_upfront_checks:
  assumes "(\<exists>c \<in> set s. c \<notin> legal_characters) \<or> \<not> balanced s"
  shows "(HasIllegalCharacters (CVectorOfLine s) \<or>
          \<not> AreParenthesesValid (items (CVectorOfLine s))) \<and>
         ParsePoly (CVectorOfLine s) n = (WrongLine, [diagnostic n ''WRONG POLY'']) \<and>
         (\<not> isalpha (first_char s) \<longrightarrow>
          Parse (CVectorOfLine s) n = (WrongLine, [diagnostic n ''WRONG POLY'']))"
proof -
  have check: "HasIllegalCharacters (CVectorOfLine s) \<or>
               \<not> AreParenthesesValid (items (CVectorOfLine s))"
  proof (cases "\<exists>c \<in> set s. c \<notin> legal_characters")
    case True
    then show ?thesis by (simp add: HasIllegalCharacters_iff)
  next
    case False
    with NUL_not_legal have "NUL \<notin> set s" by blast
    moreover from False assms have "\<not> balanced s" by blast
    ultimately have "\<not> AreParenthesesValid (s @ [NUL])"
      using AreParenthesesValid_balanced by blast
    then show ?thesis by simp
  qed
  then have "ParsePoly (CVectorOfLine s) n = (WrongLine, [diagnostic n ''WRONG POLY''])"
    by (auto simp: ParsePoly_def PrintErrorMsg_diagnostic WRONG_POLY_def)
  with check show ?thesis
    by (simp add: Parse_def first_item del: items_CVectorOfLine)
qed

theorem C1_upfront_checks_witness:
  "\<not> balanced ''(1,2)+(3,4'' \<and>
   \<not> AreParenthesesValid (items (CVectorOfLine ''(1,2)+(3,4'')) \<and>
   Parse (CVectorOfLine ''(1,2)+(3,4'') 2 = (WrongLine, [''ERROR 2 WRONG POLY'' @ [CHR 0x0A]])"
proof -
  have nb: "\<not> balanced ''(1,2)+(3,4''"
    by (simp add: balanced_def)
  have "(\<exists>c \<in> set ''(1,2)+(3,4''. c \<notin> legal_characters) \<or> \<not> balanced ''(1,2)+(3,4''"
    using nb by blast
  from C1_upfront_checks [OF this, of 2] nb show ?thesis
    by (simp add: diagnostic_def digit_char_def first_char_def isalpha_def
        HasIllegalCharacters_iff legal_characters_def)
qed

section \<open>One diagnostic for a wrong line, none for a right one\<close>

text \<open>
  C8: \<^verbatim>\<open>Parse\<close> either returns a command or a polynomial and prints nothing, or returns
  the error variant and prints exactly one line \<^verbatim>\<open>ERROR <lineNr> <MESSAGE>\<close>, whose message
  is one of the messages of the parsing layer.
\<close>

theorem C8_one_diagnostic:
  "(\<exists>c. Parse (CVectorOfLine s) n = (CommandLine c, [])) \<or>
   (\<exists>c a. Parse (CVectorOfLine s) n = (CommandLineWithArg c a, [])) \<or>
   (\<exists>q. Parse (CVectorOfLine s) n = (PolyLine q, [])) \<or>
   (\<exists>msg \<in> set parser_messages. Parse (CVectorOfLine s) n = (WrongLine, [diagnostic n msg]))"
proof -
  let ?P = "\<lambda>r. (\<exists>c. r = (CommandLine c, [])) \<or> (\<exists>c a. r = (CommandLineWithArg c a, [])) \<or>
    (\<exists>q. r = (PolyLine q, [])) \<or>
    (\<exists>msg \<in> set parser_messages. r = (WrongLine, [diagnostic n msg]))"
  have "?P (ParseCommand (CVectorOfLine s) n)"
    by (rule ParseCommand_result [where P = ?P])
      (simp_all add: parser_messages_def PrintErrorMsg_diagnostic DEG_BY_WRONG_VARIABLE_def
        AT_WRONG_VALUE_def COMPOSE_WRONG_PARAMETER_def WRONG_COMMAND_def)
  moreover have "?P (ParsePoly (CVectorOfLine s) n)"
    by (rule ParsePoly_result [where P = ?P])
      (simp_all add: parser_messages_def PrintErrorMsg_diagnostic WRONG_POLY_def)
  ultimately show ?thesis
    by (simp add: Parse_def)
qed

theorem C8_one_diagnostic_witness:
  "(\<exists>c. Parse (CVectorOfLine ''DEG_BY x'') 1 = (CommandLine c, [])) \<or>
   (\<exists>c a. Parse (CVectorOfLine ''DEG_BY x'') 1 = (CommandLineWithArg c a, [])) \<or>
   (\<exists>q. Parse (CVectorOfLine ''DEG_BY x'') 1 = (PolyLine q, [])) \<or>
   (\<exists>msg \<in> set parser_messages.
      Parse (CVectorOfLine ''DEG_BY x'') 1 = (WrongLine, [diagnostic 1 msg]))"
  by (rule C8_one_diagnostic)

section \<open>Facts about the command classifier\<close>

lemma ParseCommand_no_zero_argument:
  assumes "s \<noteq> ''ZERO''" "s \<noteq> ''IS_COEFF''" "s \<noteq> ''IS_ZERO''" "s \<noteq> ''CLONE''" "s \<noteq> ''ADD''"
    "s \<noteq> ''MUL''" "s \<noteq> ''NEG''" "s \<noteq> ''SUB''" "s \<noteq> ''IS_EQ''" "s \<noteq> ''DEG''" "s \<noteq> ''PRINT''"
    "s \<noteq> ''POP''"
  shows "ParseCommand (CVectorOfLine s) lineNr =
     (let str = CVectorOfLine s in
      if IsCorrectCommand str ''DEG_BY'' then
        (if HasDegByAnArgument str then
           (case strtoull (drop 7 (items str)) of (arg, end, erange) \<Rightarrow>
              if ArgumentError str erange end
              then (WrongLine, [PrintErrorMsg lineNr DEG_BY_WRONG_VARIABLE])
              else (CommandLineWithArg DEG_BY arg, []))
         else (WrongLine, [PrintErrorMsg lineNr DEG_BY_WRONG_VARIABLE]))
      else if IsCorrectCommand str ''AT'' then
        (if HasAtAnArgument str then
           (case strtoll (drop 3 (items str)) of (arg, end, erange) \<Rightarrow>
              if ArgumentError str erange end
              then (WrongLine, [PrintErrorMsg lineNr AT_WRONG_VALUE])
              else (CommandLineWithArg AT arg, []))
         else (WrongLine, [PrintErrorMsg lineNr AT_WRONG_VALUE]))
      else if IsCorrectCommand str ''COMPOSE'' then
        (if HasComposeAnArgument str then
           (case strtoull (drop 8 (items str)) of (arg, end, erange) \<Rightarrow>
              if ArgumentError str erange end
              then (WrongLine, [PrintErrorMsg lineNr COMPOSE_WRONG_PARAMETER])
              else (CommandLineWithArg COMPOSE arg, []))
         else (WrongLine, [PrintErrorMsg lineNr COMPOSE_WRONG_PARAMETER]))
      else (WrongLine, [PrintErrorMsg lineNr WRONG_COMMAND]))"
  using assms by (simp add: ParseCommand_def Let_def IsEqual_iff)

lemma dropWhile_isdigit_Nil: "dropWhile isdigit a = [] \<longleftrightarrow> list_all isdigit a"
  by (simp add: list_all_iff)

lemma takeWhile_isdigit_all: "list_all isdigit a \<Longrightarrow> takeWhile isdigit a = a"
  by (induction a) simp_all

lemma peek_NUL_terminated: "peek (a @ [NUL]) = (if a = [] then NUL else hd a)"
  by (cases a) simp_all

text \<open>
  What the classifier makes of the text \<open>a\<close> between the space and the terminating NUL,
  when its first byte has passed the test of \<^verbatim>\<open>Has...AnArgument\<close>.
\<close>

lemma unsigned_conversion:
  assumes "isdigit (peek (a @ [NUL]))"
  shows "(case strtoull (a @ [NUL]) of (arg, e, erange) \<Rightarrow>
            if erange \<or> peek e \<noteq> NUL \<or> length e \<noteq> 1 then None else Some arg)
         = unsigned_argument a"
proof -
  from assms have ne: "a \<noteq> []" by (cases a) simp_all
  have scan: "strto_scan (a @ [NUL]) =
      Some (False, digits_val (takeWhile isdigit a), dropWhile isdigit a @ [NUL])"
    using strto_scan_digit [OF assms] by simp
  show ?thesis
  proof (cases "list_all isdigit a")
    case True
    with ne scan show ?thesis
      by (simp add: strtoull_def unsigned_argument_def digits_def ULLONG_MAX_def
          takeWhile_isdigit_all dropWhile_isdigit_Nil [THEN iffD2])
  next
    case False
    then have "dropWhile isdigit a \<noteq> []" by (simp add: list_all_iff)
    with False scan show ?thesis
      by (simp add: strtoull_def unsigned_argument_def digits_def)
  qed
qed

lemma unsigned_argument_no_digit:
  "\<not> isdigit (peek (a @ [NUL])) \<Longrightarrow> unsigned_argument a = None"
  by (cases a) (simp_all add: unsigned_argument_def digits_def)

lemma signed_conversion:
  assumes "IsDigitOrMinus (peek (a @ [NUL]))"
  shows "(case strtoll (a @ [NUL]) of (arg, e, erange) \<Rightarrow>
            if erange \<or> peek e \<noteq> NUL \<or> length e \<noteq> 1 then None else Some arg)
         = signed_argument a"
proof (cases "isdigit (peek (a @ [NUL]))")
  case True
  then have ne: "a \<noteq> []" by (cases a) simp_all
  with True have nm: "hd a \<noteq> CHR ''-''"
    using isdigit_not_sign [of "hd a"] by (simp add: peek_NUL_terminated)
  have scan: "strto_scan (a @ [NUL]) =
      Some (False, digits_val (takeWhile isdigit a), dropWhile isdigit a @ [NUL])"
    using strto_scan_digit [OF True] by simp
  show ?thesis
  proof (cases "list_all isdigit a")
    case all: True
    with ne nm scan show ?thesis
      by (simp add: strtoll_def signed_argument_def digits_def LLONG_MAX_def LLONG_MIN_def
          takeWhile_isdigit_all dropWhile_isdigit_Nil [THEN iffD2])
  next
    case False
    then have "dropWhile isdigit a \<noteq> []" by (simp add: list_all_iff)
    with False ne nm scan show ?thesis
      by (simp add: strtoll_def signed_argument_def digits_def Let_def)
  qed
next
  case False
  with assms have "peek (a @ [NUL]) = CHR ''-''" by (simp add: IsDigitOrMinus_def)
  then obtain b where a: "a = CHR ''-'' # b" by (cases a) simp_all
  have scan: "strto_scan (a @ [NUL]) =
      (if isdigit (peek (b @ [NUL]))
       then Some (True, digits_val (takeWhile isdigit b), dropWhile isdigit b @ [NUL])
       else None)"
    using strto_scan_minus [of "a @ [NUL]"] a by simp
  show ?thesis
  proof (cases "isdigit (peek (b @ [NUL]))")
    case nodigit: False
    then have "\<not> digits b" by (cases b) (simp_all add: digits_def)
    with nodigit scan a show ?thesis
      by (simp add: strtoll_def signed_argument_def)
  next
    case True
    then have ne: "b \<noteq> []" by (cases b) simp_all
    show ?thesis
    proof (cases "list_all isdigit b")
      case all: True
      with True ne scan a show ?thesis
        by (simp add: strtoll_def signed_argument_def digits_def LLONG_MAX_def LLONG_MIN_def
            takeWhile_isdigit_all dropWhile_isdigit_Nil [THEN iffD2])
    next
      case notall: False
      then have "dropWhile isdigit b \<noteq> []" by (simp add: list_all_iff)
      with notall True scan a show ?thesis
        by (simp add: strtoll_def signed_argument_def digits_def Let_def)
    qed
  qed
qed

lemma signed_argument_no_start:
  "\<not> IsDigitOrMinus (peek (a @ [NUL])) \<Longrightarrow> signed_argument a = None"
  by (cases a) (simp_all add: signed_argument_def digits_def IsDigitOrMinus_def)

lemma strtoull_length: "strtoull s = (x, e, r) \<Longrightarrow> length e \<le> length s"
  by (auto simp: strtoull_def split: option.splits if_splits dest: strto_scan_length)

lemma ArgumentError_line:
  assumes "length e \<le> length a + 1" and "length s = k + length a"
  shows "ArgumentError (CVectorOfLine s) erange e \<longleftrightarrow> erange \<or> peek e \<noteq> NUL \<or> length e \<noteq> 1"
  using assms by (auto simp: ArgumentError_def)

lemma nth_0_peek: "(r @ [NUL]) ! 0 = peek (r @ [NUL])"
  by (cases r) simp_all

lemma ParseCommand_DEG_BY:
  assumes "IsCorrectCommand (CVectorOfLine s) ''DEG_BY''"
  shows "ParseCommand (CVectorOfLine s) n =
    (case Option.bind (command_argument ''DEG_BY'' s) unsigned_argument of
       Some v \<Rightarrow> (CommandLineWithArg DEG_BY v, [])
     | None \<Rightarrow> (WrongLine, [diagnostic n ''DEG BY WRONG VARIABLE'']))"
proof -
  from assms consider "s = ''DEG_BY''" | w r where "s = ''DEG_BY'' @ w # r" "isspace w"
    by (auto simp: IsCorrectCommand_iff)
  then show ?thesis
  proof cases
    case 1
    have "ParseCommand (CVectorOfLine s) n = (WrongLine, [PrintErrorMsg n DEG_BY_WRONG_VARIABLE])"
      using assms unfolding 1
      by (subst ParseCommand_no_zero_argument) (simp_all add: HasDegByAnArgument_def)
    with 1 show ?thesis
      by (simp add: command_argument_def PrintErrorMsg_diagnostic DEG_BY_WRONG_VARIABLE_def)
  next
    case 2
    have has: "HasDegByAnArgument (CVectorOfLine s) \<longleftrightarrow> w = CHR '' '' \<and> isdigit (peek (r @ [NUL]))"
      by (simp add: 2 HasDegByAnArgument_def nth_0_peek)
    have arg: "command_argument ''DEG_BY'' s = (if w = CHR '' '' then Some r else None)"
      by (simp add: 2 command_argument_def)
    show ?thesis
    proof (cases "w = CHR '' '' \<and> isdigit (peek (r @ [NUL]))")
      case False
      have "ParseCommand (CVectorOfLine s) n = (WrongLine, [PrintErrorMsg n DEG_BY_WRONG_VARIABLE])"
        using assms has False unfolding 2
        by (subst ParseCommand_no_zero_argument) simp_all
      with False arg show ?thesis
        by (auto simp: PrintErrorMsg_diagnostic DEG_BY_WRONG_VARIABLE_def
            unsigned_argument_no_digit)
    next
      case True
      obtain v e erange where st: "strtoull (r @ [NUL]) = (v, e, erange)"
        by (cases "strtoull (r @ [NUL])") auto
      from strtoull_length [OF st] have "length e \<le> length r + 1" by simp
      then have ae: "ArgumentError (CVectorOfLine s) erange e \<longleftrightarrow>
          erange \<or> peek e \<noteq> NUL \<or> length e \<noteq> 1"
        by (rule ArgumentError_line) (simp add: 2)
      have "ParseCommand (CVectorOfLine s) n =
          (if ArgumentError (CVectorOfLine s) erange e
           then (WrongLine, [PrintErrorMsg n DEG_BY_WRONG_VARIABLE])
           else (CommandLineWithArg DEG_BY v, []))"
        using assms has True st unfolding 2
        by (subst ParseCommand_no_zero_argument) simp_all
      moreover have "unsigned_argument r =
          (if erange \<or> peek e \<noteq> NUL \<or> length e \<noteq> 1 then None else Some v)"
        using unsigned_conversion [of r] True st by simp
      ultimately show ?thesis using True arg ae
        by (simp add: PrintErrorMsg_diagnostic DEG_BY_WRONG_VARIABLE_def)
    qed
  qed
qed

lemma ParseCommand_AT:
  assumes "IsCorrectCommand (CVectorOfLine s) ''AT''"
  shows "ParseCommand (CVectorOfLine s) n =
    (case Option.bind (command_argument ''AT'' s) signed_argument of
       Some v \<Rightarrow> (CommandLineWithArg AT v, [])
     | None \<Rightarrow> (WrongLine, [diagnostic n ''AT WRONG VALUE'']))"
proof -
  from assms have other: "\<not> IsCorrectCommand (CVectorOfLine s) ''DEG_BY''"
    by (auto simp: IsCorrectCommand_iff)
  from assms consider "s = ''AT''" | w r where "s = ''AT'' @ w # r" "isspace w"
    by (auto simp: IsCorrectCommand_iff)
  then show ?thesis
  proof cases
    case 1
    have "ParseCommand (CVectorOfLine s) n = (WrongLine, [PrintErrorMsg n AT_WRONG_VALUE])"
      using assms other unfolding 1
      by (subst ParseCommand_no_zero_argument) (simp_all add: HasAtAnArgument_def)
    with 1 show ?thesis
      by (simp add: command_argument_def PrintErrorMsg_diagnostic AT_WRONG_VALUE_def)
  next
    case 2
    have has: "HasAtAnArgument (CVectorOfLine s) \<longleftrightarrow> w = CHR '' '' \<and> IsDigitOrMinus (peek (r @ [NUL]))"
      by (simp add: 2 HasAtAnArgument_def nth_0_peek)
    have arg: "command_argument ''AT'' s = (if w = CHR '' '' then Some r else None)"
      by (simp add: 2 command_argument_def)
    show ?thesis
    proof (cases "w = CHR '' '' \<and> IsDigitOrMinus (peek (r @ [NUL]))")
      case False
      have "ParseCommand (CVectorOfLine s) n = (WrongLine, [PrintErrorMsg n AT_WRONG_VALUE])"
        using assms other has False unfolding 2
        by (subst ParseCommand_no_zero_argument) simp_all
      with False arg show ?thesis
        by (auto simp: PrintErrorMsg_diagnostic AT_WRONG_VALUE_def
            signed_argument_no_start)
    next
      case True
      obtain v e erange where st: "strtoll (r @ [NUL]) = (v, e, erange)"
        by (cases "strtoll (r @ [NUL])") auto
      from strtoll_length [OF st] have "length e \<le> length r + 1" by simp
      then have ae: "ArgumentError (CVectorOfLine s) erange e \<longleftrightarrow>
          erange \<or> peek e \<noteq> NUL \<or> length e \<noteq> 1"
        by (rule ArgumentError_line) (simp add: 2)
      have "ParseCommand (CVectorOfLine s) n =
          (if ArgumentError (CVectorOfLine s) erange e
           then (WrongLine, [PrintErrorMsg n AT_WRONG_VALUE])
           else (CommandLineWithArg AT v, []))"
        using assms other has True st unfolding 2
        by (subst ParseCommand_no_zero_argument) simp_all
      moreover have "signed_argument r =
          (if erange \<or> peek e \<noteq> NUL \<or> length e \<noteq> 1 then None else Some v)"
        using signed_conversion [of r] True st by simp
      ultimately show ?thesis using True arg ae
        by (simp add: PrintErrorMsg_diagnostic AT_WRONG_VALUE_def)
    qed
  qed
qed

lemma ParseCommand_COMPOSE:
  assumes "IsCorrectCommand (CVectorOfLine s) ''COMPOSE''"
  shows "ParseCommand (CVectorOfLine s) n =
    (case Option.bind (command_argument ''COMPOSE'' s) unsigned_argument of
       Some v \<Rightarrow> (CommandLineWithArg COMPOSE v, [])
     | None \<Rightarrow> (WrongLine, [diagnostic n ''COMPOSE WRONG PARAMETER'']))"
proof -
  from assms have other: "\<not> IsCorrectCommand (CVectorOfLine s) ''DEG_BY''" "\<not> IsCorrectCommand (CVectorOfLine s) ''AT''"
    by (auto simp: IsCorrectCommand_iff)
  from assms consider "s = ''COMPOSE''" | w r where "s = ''COMPOSE'' @ w # r" "isspace w"
    by (auto simp: IsCorrectCommand_iff)
  then show ?thesis
  proof cases
    case 1
    have "ParseCommand (CVectorOfLine s) n = (WrongLine, [PrintErrorMsg n COMPOSE_WRONG_PARAMETER])"
      using assms other unfolding 1
      by (subst ParseCommand_no_zero_argument) (simp_all add: HasComposeAnArgument_def)
    with 1 show ?thesis
      by (simp add: command_argument_def PrintErrorMsg_diagnostic COMPOSE_WRONG_PARAMETER_def)
  next
    case 2
    have has: "HasComposeAnArgument (CVectorOfLine s) \<longleftrightarrow> w = CHR '' '' \<and> isdigit (peek (r @ [NUL]))"
      by (simp add: 2 HasComposeAnArgument_def nth_0_peek)
    have arg: "command_argument ''COMPOSE'' s = (if w = CHR '' '' then Some r else None)"
      by (simp add: 2 command_argument_def)
    show ?thesis
    proof (cases "w = CHR '' '' \<and> isdigit (peek (r @ [NUL]))")
      case False
      have "ParseCommand (CVectorOfLine s) n = (WrongLine, [PrintErrorMsg n COMPOSE_WRONG_PARAMETER])"
        using assms other has False unfolding 2
        by (subst ParseCommand_no_zero_argument) simp_all
      with False arg show ?thesis
        by (auto simp: PrintErrorMsg_diagnostic COMPOSE_WRONG_PARAMETER_def
            unsigned_argument_no_digit)
    next
      case True
      obtain v e erange where st: "strtoull (r @ [NUL]) = (v, e, erange)"
        by (cases "strtoull (r @ [NUL])") auto
      from strtoull_length [OF st] have "length e \<le> length r + 1" by simp
      then have ae: "ArgumentError (CVectorOfLine s) erange e \<longleftrightarrow>
          erange \<or> peek e \<noteq> NUL \<or> length e \<noteq> 1"
        by (rule ArgumentError_line) (simp add: 2)
      have "ParseCommand (CVectorOfLine s) n =
          (if ArgumentError (CVectorOfLine s) erange e
           then (WrongLine, [PrintErrorMsg n COMPOSE_WRONG_PARAMETER])
           else (CommandLineWithArg COMPOSE v, []))"
        using assms other has True st unfolding 2
        by (subst ParseCommand_no_zero_argument) simp_all
      moreover have "unsigned_argument r =
          (if erange \<or> peek e \<noteq> NUL \<or> length e \<noteq> 1 then None else Some v)"
        using unsigned_conversion [of r] True st by simp
      ultimately show ?thesis using True arg ae
        by (simp add: PrintErrorMsg_diagnostic COMPOSE_WRONG_PARAMETER_def)
    qed
  qed
qed

section \<open>The commands with an argument\<close>

lemma command_argument_Some:
  "command_argument kw s = Some a \<Longrightarrow> s = kw @ CHR '' '' # a"
proof -
  assume "command_argument kw s = Some a"
  then have t: "take (length kw + 1) s = kw @ '' ''" and d: "a = drop (length kw + 1) s"
    by (auto simp: command_argument_def split: if_splits)
  have "s = take (length kw + 1) s @ drop (length kw + 1) s" by simp
  with t d show ?thesis by simp
qed

lemma isdigit_not_NUL: "isdigit c \<Longrightarrow> c \<noteq> NUL"
  by auto

lemma unsigned_argument_Some:
  assumes "unsigned_argument a = Some v"
  shows "digits a" and "v = int (digits_val a)" and "v \<le> 2 ^ 64 - 1"
  using assms by (auto simp: unsigned_argument_def split: if_splits)

lemma signed_argument_Some:
  assumes "signed_argument a = Some v"
  shows "a \<noteq> []" and "\<forall>c \<in> set a. isdigit c \<or> c = CHR ''-''"
    and "- (2 ^ 63) \<le> v" and "v \<le> 2 ^ 63 - 1"
proof -
  from assms consider
    (neg) "a \<noteq> []" "hd a = CHR ''-''" "digits (tl a)" "- (2 ^ 63) \<le> - int (digits_val (tl a))"
      "v = - int (digits_val (tl a))"
    | (pos) "digits a" "int (digits_val a) \<le> 2 ^ 63 - 1" "v = int (digits_val a)"
    by (auto simp: signed_argument_def split: if_splits)
  then have "a \<noteq> [] \<and> (\<forall>c \<in> set a. isdigit c \<or> c = CHR ''-'') \<and> - (2 ^ 63) \<le> v \<and> v \<le> 2 ^ 63 - 1"
  proof cases
    case neg
    then obtain b where "a = CHR ''-'' # b" by (cases a) auto
    with neg show ?thesis by (auto simp: digits_def list_all_iff)
  next
    case pos
    then show ?thesis by (auto simp: digits_def list_all_iff)
  qed
  then show "a \<noteq> []" and "\<forall>c \<in> set a. isdigit c \<or> c = CHR ''-''"
    and "- (2 ^ 63) \<le> v" and "v \<le> 2 ^ 63 - 1"
    by blast+
qed

lemma argument_command_first_char:
  assumes "IsCorrectCommand (CVectorOfLine s) kw" and "NUL \<notin> set kw" and "kw \<noteq> []"
  shows "first_char s = hd kw"
proof -
  from assms(1,2) have "s = kw \<or> (\<exists>w r. s = kw @ w # r \<and> isspace w)"
    by (simp add: IsCorrectCommand_iff)
  with assms(3) show ?thesis
    by (cases kw) (auto simp: first_char_def)
qed

lemma Parse_argument_command:
  assumes "IsCorrectCommand (CVectorOfLine s) kw" and "NUL \<notin> set kw" and "kw \<noteq> []"
    and "isalpha (hd kw)"
  shows "Parse (CVectorOfLine s) n = ParseCommand (CVectorOfLine s) n"
  using argument_command_first_char [OF assms(1-3)] assms(4)
  by (simp add: Parse_def first_item del: items_CVectorOfLine)

text \<open>
  C4: \<^verbatim>\<open>DEG_BY\<close> and \<^verbatim>\<open>COMPOSE\<close> take a non-negative integer, \<^verbatim>\<open>AT\<close> a signed integer in
  the range of the coefficients. On a line whose keyword is one of the three (the test
  \<^verbatim>\<open>IsCorrectCommand\<close>), the result is the command with the value of the argument when the
  keyword is followed by one space and such a number up to the end of the line; in every
  other case (no argument, a malformed one, one out of range, further characters after it)
  the result is the error variant with the message of the command. The line \<^verbatim>\<open>DEG_BY x\<close>,
  numbered 1, gives \<^verbatim>\<open>ERROR 1 DEG BY WRONG VARIABLE\<close>.
\<close>

theorem C4_command_arguments:
  "(IsCorrectCommand (CVectorOfLine s) ''DEG_BY'' \<longrightarrow>
      Parse (CVectorOfLine s) n =
        (case Option.bind (command_argument ''DEG_BY'' s) unsigned_argument of
           Some v \<Rightarrow> (CommandLineWithArg DEG_BY v, [])
         | None \<Rightarrow> (WrongLine, [diagnostic n ''DEG BY WRONG VARIABLE'']))) \<and>
   (IsCorrectCommand (CVectorOfLine s) ''AT'' \<longrightarrow>
      Parse (CVectorOfLine s) n =
        (case Option.bind (command_argument ''AT'' s) signed_argument of
           Some v \<Rightarrow> (CommandLineWithArg AT v, [])
         | None \<Rightarrow> (WrongLine, [diagnostic n ''AT WRONG VALUE'']))) \<and>
   (IsCorrectCommand (CVectorOfLine s) ''COMPOSE'' \<longrightarrow>
      Parse (CVectorOfLine s) n =
        (case Option.bind (command_argument ''COMPOSE'' s) unsigned_argument of
           Some v \<Rightarrow> (CommandLineWithArg COMPOSE v, [])
         | None \<Rightarrow> (WrongLine, [diagnostic n ''COMPOSE WRONG PARAMETER'']))) \<and>
   Parse (CVectorOfLine ''DEG_BY x'') 1 =
     (WrongLine, [''ERROR 1 DEG BY WRONG VARIABLE'' @ [CHR 0x0A]])"
proof (intro conjI impI)
  assume a: "IsCorrectCommand (CVectorOfLine s) ''DEG_BY''"
  then have "Parse (CVectorOfLine s) n = ParseCommand (CVectorOfLine s) n"
    by (rule Parse_argument_command) (simp_all add: isalpha_def)
  with ParseCommand_DEG_BY [OF a, of n]
  show "Parse (CVectorOfLine s) n =
        (case Option.bind (command_argument ''DEG_BY'' s) unsigned_argument of
           Some v \<Rightarrow> (CommandLineWithArg DEG_BY v, [])
         | None \<Rightarrow> (WrongLine, [diagnostic n ''DEG BY WRONG VARIABLE'']))"
    by simp
next
  assume a: "IsCorrectCommand (CVectorOfLine s) ''AT''"
  then have "Parse (CVectorOfLine s) n = ParseCommand (CVectorOfLine s) n"
    by (rule Parse_argument_command) (simp_all add: isalpha_def)
  with ParseCommand_AT [OF a, of n]
  show "Parse (CVectorOfLine s) n =
        (case Option.bind (command_argument ''AT'' s) signed_argument of
           Some v \<Rightarrow> (CommandLineWithArg AT v, [])
         | None \<Rightarrow> (WrongLine, [diagnostic n ''AT WRONG VALUE'']))"
    by simp
next
  assume a: "IsCorrectCommand (CVectorOfLine s) ''COMPOSE''"
  then have "Parse (CVectorOfLine s) n = ParseCommand (CVectorOfLine s) n"
    by (rule Parse_argument_command) (simp_all add: isalpha_def)
  with ParseCommand_COMPOSE [OF a, of n]
  show "Parse (CVectorOfLine s) n =
        (case Option.bind (command_argument ''COMPOSE'' s) unsigned_argument of
           Some v \<Rightarrow> (CommandLineWithArg COMPOSE v, [])
         | None \<Rightarrow> (WrongLine, [diagnostic n ''COMPOSE WRONG PARAMETER'']))"
    by simp
next
  show "Parse (CVectorOfLine ''DEG_BY x'') 1 =
     (WrongLine, [''ERROR 1 DEG BY WRONG VARIABLE'' @ [CHR 0x0A]])"
    by (simp add: line_eval)
qed

theorem C4_command_arguments_witness:
  "IsCorrectCommand (CVectorOfLine ''DEG_BY 18446744073709551616'') ''DEG_BY'' \<and>
   Parse (CVectorOfLine ''DEG_BY 18446744073709551616'') 5 =
     (WrongLine, [''ERROR 5 DEG BY WRONG VARIABLE'' @ [CHR 0x0A]]) \<and>
   IsCorrectCommand (CVectorOfLine ''DEG_BY 18446744073709551615'') ''DEG_BY'' \<and>
   Parse (CVectorOfLine ''DEG_BY 18446744073709551615'') 5 =
     (CommandLineWithArg DEG_BY 18446744073709551615, []) \<and>
   IsCorrectCommand (CVectorOfLine ''AT -9223372036854775808'') ''AT'' \<and>
   Parse (CVectorOfLine ''AT -9223372036854775808'') 5 =
     (CommandLineWithArg AT (- 9223372036854775808), []) \<and>
   IsCorrectCommand (CVectorOfLine ''AT'') ''AT'' \<and>
   Parse (CVectorOfLine ''AT'') 5 = (WrongLine, [''ERROR 5 AT WRONG VALUE'' @ [CHR 0x0A]]) \<and>
   IsCorrectCommand (CVectorOfLine ''COMPOSE 2 '') ''COMPOSE'' \<and>
   Parse (CVectorOfLine ''COMPOSE 2 '') 5 =
     (WrongLine, [''ERROR 5 COMPOSE WRONG PARAMETER'' @ [CHR 0x0A]])"
proof -
  have sp: "isspace (CHR '' '')" by (simp add: isspace_def)
  have c1: "IsCorrectCommand (CVectorOfLine ''DEG_BY 18446744073709551616'') ''DEG_BY''"
    and c2: "IsCorrectCommand (CVectorOfLine ''DEG_BY 18446744073709551615'') ''DEG_BY''"
    and c3: "IsCorrectCommand (CVectorOfLine ''AT -9223372036854775808'') ''AT''"
    and c4: "IsCorrectCommand (CVectorOfLine ''AT'') ''AT''"
    and c5: "IsCorrectCommand (CVectorOfLine ''COMPOSE 2 '') ''COMPOSE''"
    using sp by (simp_all add: IsCorrectCommand_iff)
  note ev = command_argument_def unsigned_argument_def signed_argument_def digits_def
    digits_val_def digit_val_def isdigit_def diagnostic_def digit_char_def
  from C4_command_arguments [of "''DEG_BY 18446744073709551616''" 5] c1
  have "Parse (CVectorOfLine ''DEG_BY 18446744073709551616'') 5 =
     (WrongLine, [''ERROR 5 DEG BY WRONG VARIABLE'' @ [CHR 0x0A]])"
    by (simp add: ev)
  moreover from C4_command_arguments [of "''DEG_BY 18446744073709551615''" 5] c2
  have "Parse (CVectorOfLine ''DEG_BY 18446744073709551615'') 5 =
     (CommandLineWithArg DEG_BY 18446744073709551615, [])"
    by (simp add: ev)
  moreover from C4_command_arguments [of "''AT -9223372036854775808''" 5] c3
  have "Parse (CVectorOfLine ''AT -9223372036854775808'') 5 =
     (CommandLineWithArg AT (- 9223372036854775808), [])"
    by (simp add: ev)
  moreover from C4_command_arguments [of "''AT''" 5] c4
  have "Parse (CVectorOfLine ''AT'') 5 = (WrongLine, [''ERROR 5 AT WRONG VALUE'' @ [CHR 0x0A]])"
    by (simp add: ev)
  moreover from C4_command_arguments [of "''COMPOSE 2 ''" 5] c5
  have "Parse (CVectorOfLine ''COMPOSE 2 '') 5 =
     (WrongLine, [''ERROR 5 COMPOSE WRONG PARAMETER'' @ [CHR 0x0A]])"
    by (simp add: ev)
  ultimately show ?thesis using c1 c2 c3 c4 c5 by blast
qed

section \<open>What is accepted as a command\<close>

lemma ParseCommand_keyword:
  "ParseCommand (CVectorOfLine ''ZERO'') n = (CommandLine ZERO, [])"
  "ParseCommand (CVectorOfLine ''IS_COEFF'') n = (CommandLine IS_COEFF, [])"
  "ParseCommand (CVectorOfLine ''IS_ZERO'') n = (CommandLine IS_ZERO, [])"
  "ParseCommand (CVectorOfLine ''CLONE'') n = (CommandLine CLONE, [])"
  "ParseCommand (CVectorOfLine ''ADD'') n = (CommandLine ADD, [])"
  "ParseCommand (CVectorOfLine ''MUL'') n = (CommandLine MUL, [])"
  "ParseCommand (CVectorOfLine ''NEG'') n = (CommandLine NEG, [])"
  "ParseCommand (CVectorOfLine ''SUB'') n = (CommandLine SUB, [])"
  "ParseCommand (CVectorOfLine ''IS_EQ'') n = (CommandLine IS_EQ, [])"
  "ParseCommand (CVectorOfLine ''DEG'') n = (CommandLine DEG, [])"
  "ParseCommand (CVectorOfLine ''PRINT'') n = (CommandLine PRINT, [])"
  "ParseCommand (CVectorOfLine ''POP'') n = (CommandLine POP, [])"
  by (simp_all add: ParseCommand_def IsEqual_iff)

lemma ParseCommand_other:
  assumes "s \<noteq> ''ZERO''" "s \<noteq> ''IS_COEFF''" "s \<noteq> ''IS_ZERO''" "s \<noteq> ''CLONE''" "s \<noteq> ''ADD''"
    "s \<noteq> ''MUL''" "s \<noteq> ''NEG''" "s \<noteq> ''SUB''" "s \<noteq> ''IS_EQ''" "s \<noteq> ''DEG''" "s \<noteq> ''PRINT''"
    "s \<noteq> ''POP''"
  shows "ParseCommand (CVectorOfLine s) n =
    (if IsCorrectCommand (CVectorOfLine s) ''DEG_BY'' then
       (case Option.bind (command_argument ''DEG_BY'' s) unsigned_argument of
          Some v \<Rightarrow> (CommandLineWithArg DEG_BY v, [])
        | None \<Rightarrow> (WrongLine, [diagnostic n ''DEG BY WRONG VARIABLE'']))
     else if IsCorrectCommand (CVectorOfLine s) ''AT'' then
       (case Option.bind (command_argument ''AT'' s) signed_argument of
          Some v \<Rightarrow> (CommandLineWithArg AT v, [])
        | None \<Rightarrow> (WrongLine, [diagnostic n ''AT WRONG VALUE'']))
     else if IsCorrectCommand (CVectorOfLine s) ''COMPOSE'' then
       (case Option.bind (command_argument ''COMPOSE'' s) unsigned_argument of
          Some v \<Rightarrow> (CommandLineWithArg COMPOSE v, [])
        | None \<Rightarrow> (WrongLine, [diagnostic n ''COMPOSE WRONG PARAMETER'']))
     else (WrongLine, [diagnostic n ''WRONG COMMAND'']))"
proof (cases "IsCorrectCommand (CVectorOfLine s) ''DEG_BY''")
  case True
  then show ?thesis by (simp add: ParseCommand_DEG_BY)
next
  case nd: False
  show ?thesis
  proof (cases "IsCorrectCommand (CVectorOfLine s) ''AT''")
    case True
    with nd show ?thesis by (simp add: ParseCommand_AT)
  next
    case na: False
    show ?thesis
    proof (cases "IsCorrectCommand (CVectorOfLine s) ''COMPOSE''")
      case True
      with nd na show ?thesis by (simp add: ParseCommand_COMPOSE)
    next
      case False
      with nd na show ?thesis
        by (subst ParseCommand_no_zero_argument [OF assms])
          (simp add: PrintErrorMsg_diagnostic WRONG_COMMAND_def)
    qed
  qed
qed

lemma digits_not_isspace: "digits a \<Longrightarrow> a \<noteq> [] \<and> (\<forall>x \<in> set a. \<not> isspace x)"
  by (auto simp: digits_def list_all_iff dest: isdigit_not_isspace)

lemma unsigned_argument_shape:
  "unsigned_argument a = Some v \<Longrightarrow> a \<noteq> [] \<and> (\<forall>x \<in> set a. \<not> isspace x)"
  using digits_not_isspace unsigned_argument_Some(1) by blast

lemma signed_argument_shape:
  assumes "signed_argument a = Some v"
  shows "a \<noteq> [] \<and> (\<forall>x \<in> set a. \<not> isspace x)"
proof -
  from signed_argument_Some(1,2) [OF assms]
  have "a \<noteq> []" and "\<forall>c \<in> set a. isdigit c \<or> c = CHR ''-''" by blast+
  then show ?thesis
    using isdigit_not_isspace not_isspace_minus by blast
qed

lemma ParseCommand_accepts:
  "ParseCommand (CVectorOfLine s) n = (CommandLine c, out) \<Longrightarrow> s = keyword c"
  "ParseCommand (CVectorOfLine s) n = (CommandLineWithArg c v, out) \<Longrightarrow>
     \<exists>a. s = keyword c @ CHR '' '' # a \<and> a \<noteq> [] \<and> (\<forall>x \<in> set a. \<not> isspace x)"
proof -
  consider "s = ''ZERO''" | "s = ''IS_COEFF''" | "s = ''IS_ZERO''" | "s = ''CLONE''"
    | "s = ''ADD''" | "s = ''MUL''" | "s = ''NEG''" | "s = ''SUB''" | "s = ''IS_EQ''"
    | "s = ''DEG''" | "s = ''PRINT''" | "s = ''POP''"
    | (other) "s \<noteq> ''ZERO''" "s \<noteq> ''IS_COEFF''" "s \<noteq> ''IS_ZERO''" "s \<noteq> ''CLONE''" "s \<noteq> ''ADD''"
      "s \<noteq> ''MUL''" "s \<noteq> ''NEG''" "s \<noteq> ''SUB''" "s \<noteq> ''IS_EQ''" "s \<noteq> ''DEG''" "s \<noteq> ''PRINT''"
      "s \<noteq> ''POP''"
    by blast
  then have "(ParseCommand (CVectorOfLine s) n = (CommandLine c, out) \<longrightarrow> s = keyword c) \<and>
    (ParseCommand (CVectorOfLine s) n = (CommandLineWithArg c v, out) \<longrightarrow>
      (\<exists>a. s = keyword c @ CHR '' '' # a \<and> a \<noteq> [] \<and> (\<forall>x \<in> set a. \<not> isspace x)))"
  proof cases
    case other
    note eq = ParseCommand_other [OF other, of n]
    show ?thesis
    proof (intro conjI impI)
      assume "ParseCommand (CVectorOfLine s) n = (CommandLine c, out)"
      with eq show "s = keyword c"
        by (auto split: if_splits option.splits)
    next
      assume r: "ParseCommand (CVectorOfLine s) n = (CommandLineWithArg c v, out)"
      with eq consider
        (deg) a where "c = DEG_BY" "command_argument ''DEG_BY'' s = Some a"
          "unsigned_argument a = Some v"
        | (at) a where "c = AT" "command_argument ''AT'' s = Some a" "signed_argument a = Some v"
        | (compose) a where "c = COMPOSE" "command_argument ''COMPOSE'' s = Some a"
          "unsigned_argument a = Some v"
        by (auto split: if_splits option.splits simp: bind_eq_Some_conv)
      then show "\<exists>a. s = keyword c @ CHR '' '' # a \<and> a \<noteq> [] \<and> (\<forall>x \<in> set a. \<not> isspace x)"
      proof cases
        case deg
        with command_argument_Some [OF deg(2)] unsigned_argument_shape [OF deg(3)]
        show ?thesis by auto
      next
        case at
        with command_argument_Some [OF at(2)] signed_argument_shape [OF at(3)]
        show ?thesis by auto
      next
        case compose
        with command_argument_Some [OF compose(2)] unsigned_argument_shape [OF compose(3)]
        show ?thesis by auto
      qed
    qed
  qed (auto simp: ParseCommand_keyword)
  then show "ParseCommand (CVectorOfLine s) n = (CommandLine c, out) \<Longrightarrow> s = keyword c"
    and "ParseCommand (CVectorOfLine s) n = (CommandLineWithArg c v, out) \<Longrightarrow>
     \<exists>a. s = keyword c @ CHR '' '' # a \<and> a \<noteq> [] \<and> (\<forall>x \<in> set a. \<not> isspace x)"
    by blast+
qed

lemma keyword_no_NUL [simp]: "NUL \<notin> set (keyword c)"
  by (cases c) simp_all

text \<open>
  C5: on a line that starts with an alphabetic character, the test \<^verbatim>\<open>IsCorrectCommand\<close>
  for a keyword holds exactly when the line is the keyword or the keyword followed by a
  white-space character (and anything); the tests of the argument come after it. A line is
  accepted as a command without argument only when it is the keyword up to its end, and as
  a command with an argument only when the keyword is followed by exactly one white-space
  character and a non-empty argument free of white space. No other content after the
  keyword gives that command.
\<close>

theorem C5_correct_command:
  assumes "isalpha (first_char s)"
  shows "(IsCorrectCommand (CVectorOfLine s) (keyword c) \<longleftrightarrow>
            s = keyword c \<or> (\<exists>w r. s = keyword c @ w # r \<and> isspace w)) \<and>
         (Parse (CVectorOfLine s) n = (CommandLine c, out) \<longrightarrow> s = keyword c) \<and>
         (Parse (CVectorOfLine s) n = (CommandLineWithArg c v, out) \<longrightarrow>
            (\<exists>w a. s = keyword c @ w # a \<and> isspace w \<and> a \<noteq> [] \<and> (\<forall>x \<in> set a. \<not> isspace x)))"
proof -
  from assms have route: "Parse (CVectorOfLine s) n = ParseCommand (CVectorOfLine s) n"
    by (simp add: Parse_def first_item del: items_CVectorOfLine)
  have sp: "isspace (CHR '' '')" by (simp add: isspace_def)
  have "IsCorrectCommand (CVectorOfLine s) (keyword c) \<longleftrightarrow>
          s = keyword c \<or> (\<exists>w r. s = keyword c @ w # r \<and> isspace w)"
    by (rule IsCorrectCommand_iff) simp
  moreover have "s = keyword c" if "Parse (CVectorOfLine s) n = (CommandLine c, out)"
    using that route ParseCommand_accepts(1) by simp
  moreover have "\<exists>w a. s = keyword c @ w # a \<and> isspace w \<and> a \<noteq> [] \<and> (\<forall>x \<in> set a. \<not> isspace x)"
    if "Parse (CVectorOfLine s) n = (CommandLineWithArg c v, out)"
  proof -
    from that route have "ParseCommand (CVectorOfLine s) n = (CommandLineWithArg c v, out)"
      by simp
    from ParseCommand_accepts(2) [OF this] sp show ?thesis by blast
  qed
  ultimately show ?thesis by blast
qed

theorem C5_correct_command_witness:
  "isalpha (first_char ''DEG_BY 3'') \<and>
   IsCorrectCommand (CVectorOfLine ''DEG_BY 3'') (keyword DEG_BY) \<and>
   Parse (CVectorOfLine ''DEG_BY 3'') 1 = (CommandLineWithArg DEG_BY 3, []) \<and>
   (\<exists>w a. ''DEG_BY 3'' = keyword DEG_BY @ w # a \<and> isspace w \<and> a \<noteq> [] \<and>
          (\<forall>x \<in> set a. \<not> isspace x)) \<and>
   isalpha (first_char ''DEG_BY3'') \<and>
   \<not> IsCorrectCommand (CVectorOfLine ''DEG_BY3'') (keyword DEG_BY) \<and>
   isalpha (first_char ''POP'') \<and>
   Parse (CVectorOfLine ''POP'') 1 = (CommandLine POP, []) \<and> ''POP'' = keyword POP"
proof -
  have a1: "isalpha (first_char ''DEG_BY 3'')" and a2: "isalpha (first_char ''DEG_BY3'')"
    and a3: "isalpha (first_char ''POP'')"
    by (simp_all add: first_char_def isalpha_def)
  have p1: "Parse (CVectorOfLine ''DEG_BY 3'') 1 = (CommandLineWithArg DEG_BY 3, [])"
    and p3: "Parse (CVectorOfLine ''POP'') 1 = (CommandLine POP, [])"
    by (simp_all add: line_eval)
  have sp: "isspace (CHR '' '')" by (simp add: isspace_def)
  from C5_correct_command [OF a1, of DEG_BY 1 "[]" 3] p1 sp
  have "IsCorrectCommand (CVectorOfLine ''DEG_BY 3'') (keyword DEG_BY) \<and>
     (\<exists>w a. ''DEG_BY 3'' = keyword DEG_BY @ w # a \<and> isspace w \<and> a \<noteq> [] \<and>
          (\<forall>x \<in> set a. \<not> isspace x))"
    by simp
  moreover from C5_correct_command [OF a2, of DEG_BY 1 "[]" 3]
  have "\<not> IsCorrectCommand (CVectorOfLine ''DEG_BY3'') (keyword DEG_BY)"
    by (simp add: isspace_def)
  moreover from C5_correct_command [OF a3, of POP 1 "[]" 0] p3
  have "''POP'' = keyword POP"
    by simp
  ultimately show ?thesis using a1 a2 a3 p1 p3 by blast
qed

section \<open>A NUL inside a command line\<close>

lemma argument_with_NUL:
  assumes "NUL \<in> set s" and "NUL \<notin> set kw"
  shows "Option.bind (command_argument kw s) unsigned_argument = None"
    and "Option.bind (command_argument kw s) signed_argument = None"
proof -
  have "unsigned_argument a = None \<and> signed_argument a = None"
    if "command_argument kw s = Some a" for a
  proof -
    from command_argument_Some [OF that] assms have "NUL \<in> set a" by auto
    moreover have "unsigned_argument a = Some v \<Longrightarrow> NUL \<notin> set a" for v
      using unsigned_argument_Some(1) [of a v] by (auto simp: digits_def list_all_iff)
    moreover have "signed_argument a = Some v \<Longrightarrow> NUL \<notin> set a" for v
      using signed_argument_Some(2) [of a v] by auto
    ultimately show ?thesis
      by (metis not_Some_eq)
  qed
  then show "Option.bind (command_argument kw s) unsigned_argument = None"
    and "Option.bind (command_argument kw s) signed_argument = None"
    by (cases "command_argument kw s"; simp)+
qed

lemma keyword_neq_NUL_line: "NUL \<in> set s \<Longrightarrow> s \<noteq> keyword c"
  using keyword_no_NUL by metis

text \<open>
  C10: a command line with a NUL byte before its recorded end is never accepted as a
  command. No keyword without argument is equal to it (\<^verbatim>\<open>IsEqual\<close> compares the stored size
  too), and where the keyword and the first byte of the argument pass their tests the
  conversion of the argument is an error (\<^verbatim>\<open>ArgumentError\<close>: the conversion has to end at
  the last stored byte). The result of the classifier, and of \<^verbatim>\<open>Parse\<close>, is the error
  variant.
\<close>

theorem C10_embedded_NUL:
  assumes "NUL \<in> set s"
  shows "(\<forall>kw. \<not> IsEqual (CVectorOfLine s) kw) \<and>
    (IsCorrectCommand (CVectorOfLine s) ''DEG_BY'' \<and> HasDegByAnArgument (CVectorOfLine s) \<longrightarrow>
       (case strtoull (drop 7 (items (CVectorOfLine s))) of
          (v, e, erange) \<Rightarrow> ArgumentError (CVectorOfLine s) erange e)) \<and>
    (IsCorrectCommand (CVectorOfLine s) ''AT'' \<and> HasAtAnArgument (CVectorOfLine s) \<longrightarrow>
       (case strtoll (drop 3 (items (CVectorOfLine s))) of
          (v, e, erange) \<Rightarrow> ArgumentError (CVectorOfLine s) erange e)) \<and>
    (IsCorrectCommand (CVectorOfLine s) ''COMPOSE'' \<and> HasComposeAnArgument (CVectorOfLine s) \<longrightarrow>
       (case strtoull (drop 8 (items (CVectorOfLine s))) of
          (v, e, erange) \<Rightarrow> ArgumentError (CVectorOfLine s) erange e)) \<and>
    fst (ParseCommand (CVectorOfLine s) n) = WrongLine \<and>
    fst (Parse (CVectorOfLine s) n) = WrongLine"
proof -
  let ?cv = "CVectorOfLine s"
  from assms have other:
    "s \<noteq> ''ZERO''" "s \<noteq> ''IS_COEFF''" "s \<noteq> ''IS_ZERO''" "s \<noteq> ''CLONE''" "s \<noteq> ''ADD''"
    "s \<noteq> ''MUL''" "s \<noteq> ''NEG''" "s \<noteq> ''SUB''" "s \<noteq> ''IS_EQ''" "s \<noteq> ''DEG''" "s \<noteq> ''PRINT''"
    "s \<noteq> ''POP''"
    by auto
  note raw = ParseCommand_no_zero_argument [OF other, of n]
  have none: "Option.bind (command_argument ''DEG_BY'' s) unsigned_argument = None"
    "Option.bind (command_argument ''AT'' s) signed_argument = None"
    "Option.bind (command_argument ''COMPOSE'' s) unsigned_argument = None"
    using assms by (simp_all add: argument_with_NUL)
  have wrong: "fst (ParseCommand ?cv n) = WrongLine"
    by (simp add: ParseCommand_other [OF other] none)
  have deg: "case strtoull (drop 7 (items ?cv)) of (v, e, erange) \<Rightarrow> ArgumentError ?cv erange e"
    if a: "IsCorrectCommand ?cv ''DEG_BY''" and h: "HasDegByAnArgument ?cv"
  proof -
    obtain v e er where st: "strtoull (drop 7 (items ?cv)) = (v, e, er)"
      by (cases "strtoull (drop 7 (items ?cv))") auto
    from raw a h st have "ParseCommand ?cv n =
        (if ArgumentError ?cv er e then (WrongLine, [PrintErrorMsg n DEG_BY_WRONG_VARIABLE])
         else (CommandLineWithArg DEG_BY v, []))"
      by (simp add: Let_def)
    with wrong have "ArgumentError ?cv er e" by (auto split: if_splits)
    with st show ?thesis by simp
  qed
  have at: "case strtoll (drop 3 (items ?cv)) of (v, e, erange) \<Rightarrow> ArgumentError ?cv erange e"
    if a: "IsCorrectCommand ?cv ''AT''" and h: "HasAtAnArgument ?cv"
  proof -
    from a have nd: "\<not> IsCorrectCommand ?cv ''DEG_BY''"
      by (auto simp: IsCorrectCommand_iff)
    obtain v e er where st: "strtoll (drop 3 (items ?cv)) = (v, e, er)"
      by (cases "strtoll (drop 3 (items ?cv))") auto
    from raw a nd h st have "ParseCommand ?cv n =
        (if ArgumentError ?cv er e then (WrongLine, [PrintErrorMsg n AT_WRONG_VALUE])
         else (CommandLineWithArg AT v, []))"
      by (simp add: Let_def)
    with wrong have "ArgumentError ?cv er e" by (auto split: if_splits)
    with st show ?thesis by simp
  qed
  have compose:
    "case strtoull (drop 8 (items ?cv)) of (v, e, erange) \<Rightarrow> ArgumentError ?cv erange e"
    if a: "IsCorrectCommand ?cv ''COMPOSE''" and h: "HasComposeAnArgument ?cv"
  proof -
    from a have nd: "\<not> IsCorrectCommand ?cv ''DEG_BY''" "\<not> IsCorrectCommand ?cv ''AT''"
      by (auto simp: IsCorrectCommand_iff)
    obtain v e er where st: "strtoull (drop 8 (items ?cv)) = (v, e, er)"
      by (cases "strtoull (drop 8 (items ?cv))") auto
    from raw a nd h st have "ParseCommand ?cv n =
        (if ArgumentError ?cv er e then (WrongLine, [PrintErrorMsg n COMPOSE_WRONG_PARAMETER])
         else (CommandLineWithArg COMPOSE v, []))"
      by (simp add: Let_def)
    with wrong have "ArgumentError ?cv er e" by (auto split: if_splits)
    with st show ?thesis by simp
  qed
  from assms NUL_not_legal have "HasIllegalCharacters ?cv"
    by (auto simp: HasIllegalCharacters_iff)
  then have "fst (ParsePoly ?cv n) = WrongLine"
    by (simp add: ParsePoly_def)
  with wrong have parse: "fst (Parse ?cv n) = WrongLine"
    by (simp add: Parse_def)
  show ?thesis
  proof (intro conjI allI impI)
    fix kw
    show "\<not> IsEqual ?cv kw" by (rule IsEqual_NUL [OF assms])
  next
    assume "IsCorrectCommand ?cv ''DEG_BY'' \<and> HasDegByAnArgument ?cv"
    then show "case strtoull (drop 7 (items ?cv)) of (v, e, erange) \<Rightarrow> ArgumentError ?cv erange e"
      using deg by (elim conjE)
  next
    assume "IsCorrectCommand ?cv ''AT'' \<and> HasAtAnArgument ?cv"
    then show "case strtoll (drop 3 (items ?cv)) of (v, e, erange) \<Rightarrow> ArgumentError ?cv erange e"
      using at by (elim conjE)
  next
    assume "IsCorrectCommand ?cv ''COMPOSE'' \<and> HasComposeAnArgument ?cv"
    then show "case strtoull (drop 8 (items ?cv)) of (v, e, erange) \<Rightarrow> ArgumentError ?cv erange e"
      using compose by (elim conjE)
  next
    show "fst (ParseCommand ?cv n) = WrongLine" by (rule wrong)
  next
    show "fst (Parse ?cv n) = WrongLine" by (rule parse)
  qed
qed

theorem C10_embedded_NUL_witness:
  "NUL \<in> set (''AT 5'' @ [NUL] @ ''7'') \<and>
   IsCorrectCommand (CVectorOfLine (''AT 5'' @ [NUL] @ ''7'')) ''AT'' \<and>
   HasAtAnArgument (CVectorOfLine (''AT 5'' @ [NUL] @ ''7'')) \<and>
   strtoll (drop 3 (items (CVectorOfLine (''AT 5'' @ [NUL] @ ''7'')))) = (5, [NUL] @ ''7'' @ [NUL], False) \<and>
   ArgumentError (CVectorOfLine (''AT 5'' @ [NUL] @ ''7'')) False ([NUL] @ ''7'' @ [NUL]) \<and>
   fst (Parse (CVectorOfLine (''AT 5'' @ [NUL] @ ''7'')) 4) = WrongLine \<and>
   NUL \<in> set (''POP'' @ [NUL]) \<and>
   \<not> IsEqual (CVectorOfLine (''POP'' @ [NUL])) ''POP'' \<and>
   fst (Parse (CVectorOfLine (''POP'' @ [NUL])) 4) = WrongLine"
proof -
  have n1: "NUL \<in> set (''AT 5'' @ [NUL] @ ''7'')" and n2: "NUL \<in> set (''POP'' @ [NUL])"
    by simp_all
  have c: "IsCorrectCommand (CVectorOfLine (''AT 5'' @ [NUL] @ ''7'')) ''AT''"
    and h: "HasAtAnArgument (CVectorOfLine (''AT 5'' @ [NUL] @ ''7''))"
    and st: "strtoll (drop 3 (items (CVectorOfLine (''AT 5'' @ [NUL] @ ''7'')))) =
              (5, [NUL] @ ''7'' @ [NUL], False)"
    by (simp_all add: line_eval)
  from C10_embedded_NUL [OF n1, of 4] c h st
  have "ArgumentError (CVectorOfLine (''AT 5'' @ [NUL] @ ''7'')) False ([NUL] @ ''7'' @ [NUL]) \<and>
     fst (Parse (CVectorOfLine (''AT 5'' @ [NUL] @ ''7'')) 4) = WrongLine"
    by simp
  moreover from C10_embedded_NUL [OF n2, of 4]
  have "\<not> IsEqual (CVectorOfLine (''POP'' @ [NUL])) ''POP'' \<and>
     fst (Parse (CVectorOfLine (''POP'' @ [NUL])) 4) = WrongLine"
    by blast
  ultimately show ?thesis using n1 n2 c h st by blast
qed

section \<open>The structural parser on the texts of the grammar\<close>

lemma digits_span:
  assumes "digits ds" and "\<not> isdigit (peek r)"
  shows "takeWhile isdigit (ds @ r) = ds" and "dropWhile isdigit (ds @ r) = r"
proof -
  from assms(1) have all: "\<forall>c \<in> set ds. isdigit c" by (simp add: digits_def list_all_iff)
  from assms(2) have r: "takeWhile isdigit r = []" "dropWhile isdigit r = r"
    by (cases r; simp)+
  from all r show "takeWhile isdigit (ds @ r) = ds" and "dropWhile isdigit (ds @ r) = r"
    by (simp_all add: takeWhile_append2 dropWhile_append2)
qed

lemma digits_peek: "digits ds \<Longrightarrow> isdigit (peek (ds @ r))"
  by (cases ds) (simp_all add: digits_def)

lemma strtoll_Coefficient:
  assumes "digits ds" and "\<not> isdigit (peek r)"
  shows "strtoll (text_of (Coefficient neg ds) @ r) =
    (if coefficient_value neg ds > LLONG_MAX then (LLONG_MAX, r, True)
     else if coefficient_value neg ds < LLONG_MIN then (LLONG_MIN, r, True)
     else (coefficient_value neg ds, r, False))"
proof (cases neg)
  case False
  have "strto_scan (ds @ r) = Some (False, digits_val ds, r)"
    using strto_scan_digit [OF digits_peek [OF assms(1)], of r] digits_span [OF assms] by simp
  with False show ?thesis
    by (simp add: strtoll_def coefficient_value_def Let_def)
next
  case True
  have "strto_scan (CHR ''-'' # ds @ r) = Some (True, digits_val ds, r)"
    using strto_scan_minus [of "CHR ''-'' # ds @ r"] digits_peek [OF assms(1), of r]
      digits_span [OF assms]
    by simp
  with True show ?thesis
    by (simp add: strtoll_def coefficient_value_def Let_def)
qed

lemma ParseExp_digits:
  assumes "digits e"
  shows "ParseExp (e @ CHR '')'' # r) =
    (if int (digits_val e) \<le> 2 ^ 31 - 1 then Some (int (digits_val e), CHR '')'' # r) else None)"
proof -
  have nd: "\<not> isdigit (peek (CHR '')'' # r))" by (simp add: isdigit_def)
  from strtoll_Coefficient [OF assms nd, of False]
  have "strtoll (e @ CHR '')'' # r) =
    (if int (digits_val e) > LLONG_MAX then (LLONG_MAX, CHR '')'' # r, True)
     else (int (digits_val e), CHR '')'' # r, False))"
    by (simp add: coefficient_value_def LLONG_MIN_def)
  with digits_peek [OF assms, of "CHR '')'' # r"] show ?thesis
    by (simp add: ParseExp_def strtol_def INT_MAX_def LLONG_MAX_def)
qed

lemma grammatical_text_start:
  "grammatical t \<Longrightarrow> text_of t \<noteq> [] \<and> peek (text_of t) \<noteq> NUL"
proof (cases t)
  case (Coefficient neg ds)
  assume "grammatical t"
  with Coefficient have "digits ds" by simp
  then have "ds \<noteq> []" "isdigit (peek ds)"
    using digits_peek [of ds "[]"] by (simp_all add: digits_def)
  with Coefficient show ?thesis by auto
next
  case (TermSum ts)
  assume "grammatical t"
  with TermSum obtain u us where ts: "ts = u # us" by (cases ts) auto
  obtain q e where "u = Term q e" by (cases u)
  with TermSum ts show ?thesis by simp
qed

lemma text_of_term_Cons: "text_of_term u @ x = CHR ''('' # tl (text_of_term u) @ x"
  by (cases u) simp

lemma peek_text_of_term [simp]: "peek (text_of_term u @ x) = CHR ''(''"
  by (cases u) simp

lemma ParsePolyHelper_loop_paren:
  "ParsePolyHelper_loop acc (CHR ''('' # b) =
     (case ParseMono b of
        None \<Rightarrow> None
      | Some (m, e) \<Rightarrow>
          if peek (tl e) = NUL \<or> peek (tl e) = CHR '','' then Some (PolyAddMonos (acc @ [m]), tl e)
          else if peek (tl e) \<noteq> CHR ''+'' then None
          else ParsePolyHelper_loop (acc @ [m]) (tl (tl e)))"
  by (subst ParsePolyHelper_loop.simps) (simp add: Let_def split: option.splits)

lemma parse_text:
  "grammatical t \<Longrightarrow> peek r = CHR '','' \<or> peek r = NUL \<Longrightarrow>
     ParsePolyHelper (text_of t @ r) = (if in_range t then Some (poly_of t, r) else None)"
  "ts \<noteq> [] \<Longrightarrow> grammatical_terms ts \<Longrightarrow> peek r = CHR '','' \<or> peek r = NUL \<Longrightarrow>
     ParsePolyHelper_loop acc (text_of_terms ts @ r) =
       (if in_range_terms ts then Some (PolyAddMonos (acc @ monos_of ts), r) else None)"
  "grammatical_term u \<Longrightarrow>
     ParseMono (tl (text_of_term u) @ r) =
       (if in_range_term u then Some (mono_of u, CHR '')'' # r) else None)"
proof (induction t and ts and u arbitrary: r and r acc and r
    rule: text_of_text_of_terms_text_of_term.induct)
  case (1 neg ds)
  then have d: "digits ds" by simp
  from 1(2) have nd: "\<not> isdigit (peek r)" by (auto simp: isdigit_def)
  have start: "peek (text_of (Coefficient neg ds) @ r) \<noteq> NUL"
    "IsDigitOrMinus (peek (text_of (Coefficient neg ds) @ r))"
    using digits_peek [OF d, of r] by (auto simp: IsDigitOrMinus_def)
  show ?case
    using start 1(2)
    by (subst ParsePolyHelper.simps)
      (auto simp: strtoll_Coefficient [OF d nd] LLONG_MAX_def LLONG_MIN_def
        simp del: text_of.simps)
next
  case (2 ts)
  then have ne: "ts \<noteq> []" and g: "grammatical_terms ts" by simp_all
  then obtain u us where ts: "ts = u # us" by (cases ts) auto
  have start: "peek (text_of (TermSum ts) @ r) = CHR ''(''"
    using ts by simp
  then show ?case
    using "2.IH" [OF ne g "2.prems"(2), of "[]"]
    by (subst ParsePolyHelper.simps) (simp add: IsDigitOrMinus_def isdigit_def)
next
  case 3
  then show ?case by simp
next
  case (4 u us)
  from "4.prems" have gu: "grammatical_term u" and gus: "grammatical_terms us" by simp_all
  let ?rst = "if us = [] then r else ''+'' @ text_of_terms us @ r"
  have shape: "text_of_terms (u # us) @ r = CHR ''('' # tl (text_of_term u) @ ?rst"
    using text_of_term_Cons [of u] by simp
  have mono: "ParseMono (tl (text_of_term u) @ ?rst) =
      (if in_range_term u then Some (mono_of u, CHR '')'' # ?rst) else None)"
    using "4.IH"(1,2) gu by (cases "us = []") simp_all
  show ?case
  proof (cases "us = []")
    case True
    with mono "4.prems"(3) show ?thesis
      unfolding shape ParsePolyHelper_loop_paren by auto
  next
    case False
    from "4.IH"(3) [OF False False gus "4.prems"(3)]
    have "ParsePolyHelper_loop (acc @ [mono_of u]) (text_of_terms us @ r) =
        (if in_range_terms us then Some (PolyAddMonos ((acc @ [mono_of u]) @ monos_of us), r)
         else None)" .
    with False mono show ?thesis
      unfolding shape ParsePolyHelper_loop_paren by simp
  qed
next
  case (5 q e)
  then have gq: "grammatical q" and de: "digits e" by simp_all
  have start: "peek (text_of q @ '','' @ e @ '')'' @ r) \<noteq> NUL"
    using grammatical_text_start [OF gq] by simp
  have poly: "ParsePolyHelper (text_of q @ '','' @ e @ '')'' @ r) =
      (if in_range q then Some (poly_of q, '','' @ e @ '')'' @ r) else None)"
    by (rule "5.IH" [OF gq]) simp
  show ?case
    using start poly ParseExp_digits [OF de, of r]
    by (subst ParseMono.simps) (simp add: )
qed

section \<open>What the structural parser accepts\<close>

lemma digits_takeWhile: "isdigit (peek b) \<Longrightarrow> digits (takeWhile isdigit b)"
  by (cases b) (auto simp: digits_def list_all_iff dest: set_takeWhileD)

lemma strtoll_accept:
  assumes "IsDigitOrMinus (peek b)" and "strtoll b = (x, e, False)"
    and "peek e = CHR '','' \<or> peek e = NUL"
  shows "\<exists>neg ds. digits ds \<and> b = text_of (Coefficient neg ds) @ e \<and>
           x = coefficient_value neg ds \<and> in_range (Coefficient neg ds)"
proof (cases "isdigit (peek b)")
  case True
  let ?ds = "takeWhile isdigit b"
  from strto_scan_digit [OF True] assms(2)
  have "e = dropWhile isdigit b" and "x = int (digits_val ?ds)" and "x \<le> LLONG_MAX"
    by (auto simp: strtoll_def Let_def split: if_splits)
  then have "digits ?ds \<and> b = text_of (Coefficient False ?ds) @ e \<and>
      x = coefficient_value False ?ds \<and> in_range (Coefficient False ?ds)"
    using digits_takeWhile [OF True]
    by (simp add: coefficient_value_def LLONG_MAX_def)
  then show ?thesis by blast
next
  case False
  with assms(1) have minus: "peek b = CHR ''-''" by (simp add: IsDigitOrMinus_def)
  then obtain b' where b: "b = CHR ''-'' # b'" by (cases b) simp_all
  let ?ds = "takeWhile isdigit b'"
  have dig: "isdigit (peek b')"
  proof (rule ccontr)
    assume "\<not> isdigit (peek b')"
    with strto_scan_minus [OF minus] b assms(2) have "e = b"
      by (simp add: strtoll_def)
    with minus assms(3) show False by simp
  qed
  with strto_scan_minus [OF minus] b assms(2)
  have "e = dropWhile isdigit b'" and "x = - int (digits_val ?ds)" and "LLONG_MIN \<le> x"
    by (auto simp: strtoll_def Let_def split: if_splits)
  then have "digits ?ds \<and> b = text_of (Coefficient True ?ds) @ e \<and>
      x = coefficient_value True ?ds \<and> in_range (Coefficient True ?ds)"
    using digits_takeWhile [OF dig] b
    by (simp add: coefficient_value_def LLONG_MIN_def)
  then show ?thesis by blast
qed

lemma ParseExp_accept:
  assumes "ParseExp b = Some (x, e)"
  shows "\<exists>ds. digits ds \<and> b = ds @ e \<and> peek e = CHR '')'' \<and> x = int (digits_val ds) \<and>
           x \<le> 2 ^ 31 - 1"
proof -
  from assms have dig: "isdigit (peek b)"
    by (auto simp: ParseExp_def split: if_splits)
  let ?ds = "takeWhile isdigit b"
  from assms dig strto_scan_digit [OF dig]
  have "e = dropWhile isdigit b" and "x = int (digits_val ?ds)" and "peek e = CHR '')''"
    and "x \<le> INT_MAX"
    by (auto simp: ParseExp_def strtol_def strtoll_def Let_def split: if_splits)
  with digits_takeWhile [OF dig] show ?thesis
    by (auto simp: INT_MAX_def)
qed

lemma peek_eq_Cons: "peek b = c \<Longrightarrow> c \<noteq> NUL \<Longrightarrow> b = c # tl b"
  by (cases b) simp_all

lemma parse_sound:
  "ParsePolyHelper b = Some (q, e) \<Longrightarrow>
     \<exists>t. grammatical t \<and> in_range t \<and> b = text_of t @ e \<and> q = poly_of t \<and>
         (peek e = CHR '','' \<or> peek e = NUL)"
  "ParsePolyHelper_loop acc b1 = Some (q1, e1) \<Longrightarrow>
     \<exists>ts. ts \<noteq> [] \<and> grammatical_terms ts \<and> in_range_terms ts \<and> b1 = text_of_terms ts @ e1 \<and>
          q1 = PolyAddMonos (acc @ monos_of ts) \<and> (peek e1 = CHR '','' \<or> peek e1 = NUL)"
  "ParseMono b2 = Some (m, e2) \<Longrightarrow>
     \<exists>u e'. e2 = CHR '')'' # e' \<and> grammatical_term u \<and> in_range_term u \<and>
           CHR ''('' # b2 = text_of_term u @ e' \<and> m = mono_of u"
proof (induction b and acc b1 and b2 arbitrary: q e and q1 e1 and m e2
    rule: ParsePolyHelper_ParsePolyHelper_loop_ParseMono.induct)
  case (1 bg)
  from "1.prems" have nn: "peek bg \<noteq> NUL"
    by (subst (asm) ParsePolyHelper.simps) (simp split: if_splits)
  show ?case
  proof (cases "IsDigitOrMinus (peek bg)")
    case True
    obtain x en er where st: "strtoll bg = (x, en, er)"
      by (cases "strtoll bg") auto
    from "1.prems" nn True st have "\<not> er" and pe: "peek en = CHR '','' \<or> peek en = NUL"
      and q: "q = PolyFromCoeff x" and e: "e = en"
      by (subst (asm) ParsePolyHelper.simps; simp split: if_splits)+
    from strtoll_accept [OF True _ pe] st \<open>\<not> er\<close>
    obtain neg ds where "digits ds" "bg = text_of (Coefficient neg ds) @ en"
      "x = coefficient_value neg ds" "in_range (Coefficient neg ds)"
      by auto
    with q e pe have "grammatical (Coefficient neg ds) \<and> in_range (Coefficient neg ds) \<and>
      bg = text_of (Coefficient neg ds) @ e \<and> q = poly_of (Coefficient neg ds) \<and>
      (peek e = CHR '','' \<or> peek e = NUL)"
      by simp
    then show ?thesis by blast
  next
    case False
    with "1.prems" nn have "ParsePolyHelper_loop [] bg = Some (q, e)"
      by (subst (asm) ParsePolyHelper.simps) simp
    from "1.IH" [OF nn False this]
    obtain ts where "ts \<noteq> []" "grammatical_terms ts" "in_range_terms ts"
      "bg = text_of_terms ts @ e" "q = PolyAddMonos ([] @ monos_of ts)"
      "peek e = CHR '','' \<or> peek e = NUL"
      by blast
    then have "grammatical (TermSum ts) \<and> in_range (TermSum ts) \<and>
      bg = text_of (TermSum ts) @ e \<and> q = poly_of (TermSum ts) \<and>
      (peek e = CHR '','' \<or> peek e = NUL)"
      by simp
    then show ?thesis by blast
  qed
next
  case (2 mns bg)
  from "2.prems" have par: "peek bg = CHR ''(''"
    by (subst (asm) ParsePolyHelper_loop.simps) (simp split: if_splits)
  then have bg: "bg = CHR ''('' # tl bg" by (rule peek_eq_Cons) simp
  from "2.prems" par obtain m' en where pm: "ParseMono (tl bg) = Some (m', en)"
    by (subst (asm) ParsePolyHelper_loop.simps) (auto split: option.splits)
  from "2.IH"(1) [OF _ pm] par
  obtain u e' where en: "en = CHR '')'' # e'" and gu: "grammatical_term u"
    and ru: "in_range_term u" and tu: "CHR ''('' # tl bg = text_of_term u @ e'"
    and mu: "m' = mono_of u"
    by auto
  have "ParsePolyHelper_loop mns (CHR ''('' # tl bg) =
    (if peek e' = NUL \<or> peek e' = CHR '','' then Some (PolyAddMonos (mns @ [m']), e')
      else if peek e' \<noteq> CHR ''+'' then None
      else ParsePolyHelper_loop (mns @ [m']) (tl e'))"
    by (simp add: ParsePolyHelper_loop_paren pm en)
  with "2.prems" bg have step:
    "(if peek e' = NUL \<or> peek e' = CHR '','' then Some (PolyAddMonos (mns @ [m']), e')
      else if peek e' \<noteq> CHR ''+'' then None
      else ParsePolyHelper_loop (mns @ [m']) (tl e')) = Some (q1, e1)"
    by metis
  show ?case
  proof (cases "peek e' = NUL \<or> peek e' = CHR '',''")
    case True
    with step have "q1 = PolyAddMonos (mns @ [m'])" and "e1 = e'" by simp_all
    with True gu ru tu mu bg have "[u] \<noteq> [] \<and> grammatical_terms [u] \<and> in_range_terms [u] \<and>
      bg = text_of_terms [u] @ e1 \<and> q1 = PolyAddMonos (mns @ monos_of [u]) \<and>
      (peek e1 = CHR '','' \<or> peek e1 = NUL)"
      by auto
    then show ?thesis by blast
  next
    case False
    with step have plus: "peek e' = CHR ''+''"
      and rec: "ParsePolyHelper_loop (mns @ [m']) (tl e') = Some (q1, e1)"
      by (auto split: if_splits)
    from plus have e': "e' = CHR ''+'' # tl e'" by (rule peek_eq_Cons) simp
    have nb: "\<not> peek bg \<noteq> CHR ''(''" using par by simp
    have "\<exists>ts. ts \<noteq> [] \<and> grammatical_terms ts \<and> in_range_terms ts \<and>
        tl (tl en) = text_of_terms ts @ e1 \<and>
        q1 = PolyAddMonos ((mns @ [m']) @ monos_of ts) \<and>
        (peek e1 = CHR '','' \<or> peek e1 = NUL)"
    proof (rule "2.IH"(2) [OF nb pm refl refl refl])
      show "\<not> (peek (tl en) = NUL \<or> peek (tl en) = CHR '','')"
        using False en by simp
      show "\<not> peek (tl en) \<noteq> CHR ''+''"
        using plus en by simp
      show "ParsePolyHelper_loop (mns @ [m']) (tl (tl en)) = Some (q1, e1)"
        using rec en by simp
    qed
    then obtain ts where ts: "ts \<noteq> []" "grammatical_terms ts" "in_range_terms ts"
      "tl e' = text_of_terms ts @ e1" "q1 = PolyAddMonos ((mns @ [m']) @ monos_of ts)"
      "peek e1 = CHR '','' \<or> peek e1 = NUL"
      using en by auto
    have "bg = text_of_term u @ CHR ''+'' # text_of_terms ts @ e1"
      using bg tu e' ts(4) by metis
    with ts gu ru mu have "u # ts \<noteq> [] \<and> grammatical_terms (u # ts) \<and>
      in_range_terms (u # ts) \<and> bg = text_of_terms (u # ts) @ e1 \<and>
      q1 = PolyAddMonos (mns @ monos_of (u # ts)) \<and> (peek e1 = CHR '','' \<or> peek e1 = NUL)"
      by simp
    then show ?thesis by blast
  qed
next
  case (3 bg)
  from "3.prems" have nn: "peek bg \<noteq> NUL"
    by (subst (asm) ParseMono.simps) (simp split: if_splits)
  with "3.prems" obtain q' en where pp: "ParsePolyHelper bg = Some (q', en)"
    by (subst (asm) ParseMono.simps) (auto split: option.splits)
  from "3.prems" nn pp have nn': "peek en \<noteq> NUL"
    by (subst (asm) ParseMono.simps) (simp split: if_splits)
  from "3.prems" nn pp nn' obtain x where pe: "ParseExp (tl en) = Some (x, e2)"
    and m: "m = MonoFromPoly q' x"
    by (subst (asm) ParseMono.simps) (auto split: option.splits)
  from "3.IH" [OF nn pp] nn'
  obtain t where t: "grammatical t" "in_range t" "bg = text_of t @ en" "q' = poly_of t"
    "peek en = CHR '',''"
    by auto
  from t(5) have en: "en = CHR '','' # tl en" by (rule peek_eq_Cons) simp
  from ParseExp_accept [OF pe]
  obtain ds where ds: "digits ds" "tl en = ds @ e2" "peek e2 = CHR '')''" "x = int (digits_val ds)"
    "x \<le> 2 ^ 31 - 1"
    by blast
  from ds(3) have e2: "e2 = CHR '')'' # tl e2" by (rule peek_eq_Cons) simp
  have "bg = text_of t @ CHR '','' # ds @ CHR '')'' # tl e2"
    using t(3) en ds(2) e2 by metis
  then have "CHR ''('' # bg = text_of_term (Term t ds) @ tl e2"
    by simp
  with t ds m e2 have "e2 = CHR '')'' # tl e2 \<and> grammatical_term (Term t ds) \<and>
    in_range_term (Term t ds) \<and> CHR ''('' # bg = text_of_term (Term t ds) @ tl e2 \<and>
    m = mono_of (Term t ds)"
    by simp
  then show ?case by blast
qed

section \<open>The texts of the grammar\<close>

lemma digits_legal: "digits ds \<Longrightarrow> set ds \<subseteq> legal_characters"
  by (auto simp: digits_def list_all_iff IsLegalCaracter_iff [symmetric] IsLegalCaracter_def)

lemma legal_signs [simp]:
  "CHR ''-'' \<in> legal_characters" "CHR ''+'' \<in> legal_characters"
  "CHR ''('' \<in> legal_characters" "CHR '')'' \<in> legal_characters"
  "CHR '','' \<in> legal_characters"
  by (simp_all add: IsLegalCaracter_iff [symmetric] IsLegalCaracter_def)

lemma text_legal:
  "grammatical t \<Longrightarrow> set (text_of t) \<subseteq> legal_characters"
  "grammatical_terms ts \<Longrightarrow> set (text_of_terms ts) \<subseteq> legal_characters"
  "grammatical_term u \<Longrightarrow> set (text_of_term u) \<subseteq> legal_characters"
proof (induction t and ts and u rule: text_of_text_of_terms_text_of_term.induct)
  case (1 neg ds)
  then show ?case using digits_legal [of ds] by auto
next
  case (2 ts)
  then show ?case by simp
next
  case 3
  then show ?case by simp
next
  case (4 u us)
  then show ?case by auto
next
  case (5 q e)
  then show ?case using digits_legal [of e] by auto
qed

lemma text_no_NUL: "grammatical t \<Longrightarrow> NUL \<notin> set (text_of t)"
  using text_legal(1) NUL_not_legal by blast

lemma text_of_terms_last:
  "ts \<noteq> [] \<Longrightarrow> text_of_terms ts \<noteq> [] \<and> last (text_of_terms ts) = CHR '')''"
proof (induction ts)
  case Nil
  then show ?case by simp
next
  case (Cons u us)
  obtain q e where u: "u = Term q e" by (cases u)
  show ?case
  proof (cases "us = []")
    case True
    with u show ?thesis by simp
  next
    case False
    with Cons.IH u show ?thesis by simp
  qed
qed

lemma first_char_text:
  assumes "grammatical t"
  shows "\<not> isalpha (first_char (text_of t))"
proof (cases t)
  case (Coefficient neg ds)
  with assms have "digits ds" by simp
  then obtain d ds' where "ds = d # ds'" "isdigit d" by (cases ds) (auto simp: digits_def)
  with Coefficient show ?thesis
    by (auto simp: first_char_def isalpha_def isdigit_def)
next
  case (TermSum ts)
  with assms obtain u us where ts: "ts = u # us" by (cases ts) auto
  obtain q e where "u = Term q e" by (cases u)
  with TermSum ts show ?thesis
    by (simp add: first_char_def isalpha_def)
qed

lemma line_end:
  assumes "ParsePolyHelper (s @ [NUL]) = Some (q, e)" and "NUL \<notin> set s" and "peek e = NUL"
  shows "\<exists>t. grammatical t \<and> in_range t \<and> s = text_of t \<and> q = poly_of t \<and> e = [NUL]"
proof -
  from parse_sound(1) [OF assms(1)]
  obtain t where t: "grammatical t" "in_range t" "s @ [NUL] = text_of t @ e" "q = poly_of t"
    by blast
  from t(1) have nn: "NUL \<notin> set (text_of t)" by (rule text_no_NUL)
  have "e \<noteq> []"
  proof
    assume "e = []"
    with t(3) have "NUL \<in> set (text_of t)" by (metis append_Nil2 in_set_conv_decomp)
    with nn show False by simp
  qed
  with assms(3) obtain e' where e: "e = NUL # e'" by (cases e) simp_all
  have "cstr (s @ [NUL]) = s" using assms(2) by (simp add: cstr_id)
  moreover have "cstr e = []" using e by (simp add: cstr_def)
  then have "cstr (text_of t @ e) = text_of t"
    using cstr_append [OF nn, of e] by simp
  ultimately have s: "s = text_of t" using t(3) by simp
  with t(3) have "e = [NUL]" by simp
  with t s show ?thesis by blast
qed

lemma ParsePoly_accept:
  assumes "ParsePoly (CVectorOfLine s) n = (PolyLine q, out)"
  shows "\<exists>t. grammatical t \<and> in_range t \<and> s = text_of t \<and> q = poly_of t"
proof -
  from assms have legal: "\<not> HasIllegalCharacters (CVectorOfLine s)"
    by (auto simp: ParsePoly_def split: if_splits)
  with NUL_not_legal have nn: "NUL \<notin> set s"
    by (auto simp: HasIllegalCharacters_iff)
  from assms legal obtain e where "ParsePolyHelper (s @ [NUL]) = Some (q, e)" "peek e = NUL"
    by (auto simp: ParsePoly_def split: if_splits option.splits)
  from line_end [OF this(1) nn this(2)] show ?thesis by blast
qed

lemma Parse_accept:
  assumes "Parse (CVectorOfLine s) n = (PolyLine q, out)"
  shows "\<exists>t. grammatical t \<and> in_range t \<and> s = text_of t \<and> q = poly_of t"
proof (cases "isalpha (first_char s)")
  case True
  with assms have "fst (ParseCommand (CVectorOfLine s) n) = PolyLine q"
    by (simp add: Parse_def first_item del: items_CVectorOfLine)
  with ParseCommand_not_poly1 show ?thesis by blast
next
  case False
  with assms have "ParsePoly (CVectorOfLine s) n = (PolyLine q, out)"
    by (simp add: Parse_def first_item del: items_CVectorOfLine)
  then show ?thesis by (rule ParsePoly_accept)
qed

lemma ParsePoly_helper_None:
  "ParsePolyHelper (s @ [NUL]) = None \<Longrightarrow>
     ParsePoly (CVectorOfLine s) n = (WrongLine, [diagnostic n ''WRONG POLY''])"
  by (simp add: ParsePoly_def PrintErrorMsg_diagnostic WRONG_POLY_def)

section \<open>The form of the accepted polynomial lines\<close>

lemma coefficient_text_chars:
  "digits ds \<Longrightarrow> c \<in> set (text_of (Coefficient neg ds)) \<Longrightarrow> isdigit c \<or> c = CHR ''-''"
  by (auto simp: digits_def list_all_iff split: if_splits)

lemma coefficient_then_plus:
  assumes "digits ds"
  shows "ParsePolyHelper (text_of (Coefficient neg ds) @ ''+'' @ r) = None"
proof -
  have nd: "\<not> isdigit (peek (CHR ''+'' # r))" by (simp add: isdigit_def)
  have start: "peek (text_of (Coefficient neg ds) @ CHR ''+'' # r) \<noteq> NUL"
    "IsDigitOrMinus (peek (text_of (Coefficient neg ds) @ CHR ''+'' # r))"
    using digits_peek [OF assms, of "CHR ''+'' # r"] by (auto simp: IsDigitOrMinus_def)
  have "ParsePolyHelper (text_of (Coefficient neg ds) @ CHR ''+'' # r) = None"
    using start
    by (subst ParsePolyHelper.simps)
      (auto simp: strtoll_Coefficient [OF assms nd] simp del: text_of.simps)
  then show ?thesis by simp
qed

lemma ParsePoly_cases:
  "ParsePoly cv n = (WrongLine, [diagnostic n ''WRONG POLY'']) \<or>
   (\<exists>q. ParsePoly cv n = (PolyLine q, []))"
  by (rule ParsePoly_result [where P = "\<lambda>r. r = (WrongLine, [diagnostic n ''WRONG POLY'']) \<or>
      (\<exists>q. r = (PolyLine q, []))"])
    (simp_all add: PrintErrorMsg_diagnostic WRONG_POLY_def)

lemma plus_then_coefficient:
  assumes "digits ds" and "grammatical t"
  shows "text_of t \<noteq> r @ ''+'' @ text_of (Coefficient neg ds)"
proof
  assume eq: "text_of t = r @ ''+'' @ text_of (Coefficient neg ds)"
  from assms(1) have ne: "text_of (Coefficient neg ds) \<noteq> []"
    by (auto simp: digits_def)
  from assms(1) have "ds \<noteq> []" and "isdigit (last ds)"
    by (auto simp: digits_def list_all_iff)
  then have lastd: "isdigit (last (r @ ''+'' @ text_of (Coefficient neg ds)))"
    by simp
  show False
  proof (cases t)
    case (Coefficient neg' ds')
    with assms(2) have d': "digits ds'" by simp
    have "CHR ''+'' \<in> set (text_of t)" unfolding eq by simp
    with Coefficient coefficient_text_chars [OF d', of "CHR ''+''" neg'] show False
      by (auto simp: isdigit_def)
  next
    case (TermSum ts)
    with assms(2) have "ts \<noteq> []" by simp
    from text_of_terms_last [OF this] TermSum eq lastd show False
      by (simp add: isdigit_def)
  qed
qed

text \<open>
  C2: a polynomial line that is accepted is the text of a tree of the grammar: a single
  coefficient (digits, with an optional \<open>-\<close> in front) or a sum of parenthesized terms
  separated by \<open>+\<close>, and the polynomial returned is the one the text denotes. A line that
  mixes the two forms, a coefficient followed by \<open>+\<close> and anything, or anything followed by
  \<open>+\<close> and a coefficient, is rejected with the diagnostic \<^verbatim>\<open>WRONG POLY\<close>.
\<close>

theorem C2_accepted_forms:
  "(Parse (CVectorOfLine s) n = (PolyLine q, out) \<longrightarrow>
      ((\<exists>neg ds. digits ds \<and> s = text_of (Coefficient neg ds) \<and> q = poly_of (Coefficient neg ds)) \<or>
       (\<exists>ts. ts \<noteq> [] \<and> grammatical_terms ts \<and> s = text_of (TermSum ts) \<and>
             q = poly_of (TermSum ts)))) \<and>
   (digits ds \<longrightarrow>
      ParsePoly (CVectorOfLine (text_of (Coefficient neg ds) @ ''+'' @ r)) n =
        (WrongLine, [diagnostic n ''WRONG POLY''])) \<and>
   (digits ds \<longrightarrow>
      ParsePoly (CVectorOfLine (r @ ''+'' @ text_of (Coefficient neg ds))) n =
        (WrongLine, [diagnostic n ''WRONG POLY'']))"
proof (intro conjI impI)
  assume "Parse (CVectorOfLine s) n = (PolyLine q, out)"
  from Parse_accept [OF this]
  obtain t where t: "grammatical t" "s = text_of t" "q = poly_of t" by blast
  show "(\<exists>neg ds. digits ds \<and> s = text_of (Coefficient neg ds) \<and> q = poly_of (Coefficient neg ds)) \<or>
       (\<exists>ts. ts \<noteq> [] \<and> grammatical_terms ts \<and> s = text_of (TermSum ts) \<and>
             q = poly_of (TermSum ts))"
  proof (cases t)
    case (Coefficient neg ds)
    with t show ?thesis by auto
  next
    case (TermSum ts)
    with t show ?thesis by auto
  qed
next
  assume d: "digits ds"
  have "ParsePolyHelper ((text_of (Coefficient neg ds) @ ''+'' @ r) @ [NUL]) = None"
    using coefficient_then_plus [OF d, of neg "r @ [NUL]"] by simp
  then show "ParsePoly (CVectorOfLine (text_of (Coefficient neg ds) @ ''+'' @ r)) n =
        (WrongLine, [diagnostic n ''WRONG POLY''])"
    by (rule ParsePoly_helper_None)
next
  assume d: "digits ds"
  let ?s = "r @ ''+'' @ text_of (Coefficient neg ds)"
  have "\<not> (\<exists>q. ParsePoly (CVectorOfLine ?s) n = (PolyLine q, []))"
  proof
    assume "\<exists>q. ParsePoly (CVectorOfLine ?s) n = (PolyLine q, [])"
    then obtain q' where "ParsePoly (CVectorOfLine ?s) n = (PolyLine q', [])" by blast
    from ParsePoly_accept [OF this] obtain t where "grammatical t" "?s = text_of t" by blast
    with plus_then_coefficient [OF d this(1), of r neg] show False by simp
  qed
  with ParsePoly_cases [of "CVectorOfLine ?s" n]
  show "ParsePoly (CVectorOfLine ?s) n = (WrongLine, [diagnostic n ''WRONG POLY''])"
    by blast
qed

theorem C2_accepted_forms_witness:
  "Parse (CVectorOfLine ''(1,2)+(-3,0)'') 1 =
     (PolyLine (PolyMonos [Mono (PolyCoeff (- 3)) 0, Mono (PolyCoeff 1) 2]), []) \<and>
   ((\<exists>neg ds. digits ds \<and> ''(1,2)+(-3,0)'' = text_of (Coefficient neg ds) \<and>
       PolyMonos [Mono (PolyCoeff (- 3)) 0, Mono (PolyCoeff 1) 2] = poly_of (Coefficient neg ds)) \<or>
    (\<exists>ts. ts \<noteq> [] \<and> grammatical_terms ts \<and> ''(1,2)+(-3,0)'' = text_of (TermSum ts) \<and>
       PolyMonos [Mono (PolyCoeff (- 3)) 0, Mono (PolyCoeff 1) 2] = poly_of (TermSum ts))) \<and>
   digits ''1'' \<and>
   ParsePoly (CVectorOfLine ''1+(1,1)'') 1 = (WrongLine, [''ERROR 1 WRONG POLY'' @ [CHR 0x0A]]) \<and>
   ParsePoly (CVectorOfLine ''(1,1)+1'') 1 = (WrongLine, [''ERROR 1 WRONG POLY'' @ [CHR 0x0A]])"
proof -
  have p: "Parse (CVectorOfLine ''(1,2)+(-3,0)'') 1 =
     (PolyLine (PolyMonos [Mono (PolyCoeff (- 3)) 0, Mono (PolyCoeff 1) 2]), [])"
    by (simp add: line_eval)
  have d: "digits ''1''" by (simp add: digits_def isdigit_def)
  note inst1 = C2_accepted_forms [of "''(1,2)+(-3,0)''" 1
      "PolyMonos [Mono (PolyCoeff (- 3)) 0, Mono (PolyCoeff 1) 2]" "[]" "''1''" False "''(1,1)''"]
  from inst1 p have
    "(\<exists>neg ds. digits ds \<and> ''(1,2)+(-3,0)'' = text_of (Coefficient neg ds) \<and>
       PolyMonos [Mono (PolyCoeff (- 3)) 0, Mono (PolyCoeff 1) 2] = poly_of (Coefficient neg ds)) \<or>
    (\<exists>ts. ts \<noteq> [] \<and> grammatical_terms ts \<and> ''(1,2)+(-3,0)'' = text_of (TermSum ts) \<and>
       PolyMonos [Mono (PolyCoeff (- 3)) 0, Mono (PolyCoeff 1) 2] = poly_of (TermSum ts))"
    by blast
  moreover from inst1 d have
    "ParsePoly (CVectorOfLine ''1+(1,1)'') 1 = (WrongLine, [''ERROR 1 WRONG POLY'' @ [CHR 0x0A]])"
    "ParsePoly (CVectorOfLine ''(1,1)+1'') 1 = (WrongLine, [''ERROR 1 WRONG POLY'' @ [CHR 0x0A]])"
    by (simp_all add: diagnostic_def digit_char_def)
  ultimately show ?thesis using p d by blast
qed

section \<open>The ranges of coefficients and exponents\<close>

text \<open>
  C3: in a polynomial literal a coefficient has to fit the signed 64-bit range and an
  exponent, a digit sequence followed at once by \<open>)\<close>, has to be at most \<^verbatim>\<open>INT_MAX\<close>. On
  the text of a tree of the grammar the structural parser returns the polynomial when every
  coefficient and exponent is in range and fails otherwise; a line with a coefficient or an
  exponent out of range is rejected with the diagnostic \<^verbatim>\<open>WRONG POLY\<close>; and every accepted
  line has all its coefficients and exponents in range. The conversions report a value out
  of range through \<^verbatim>\<open>errno\<close>, which the parser tests.
\<close>

theorem C3_ranges:
  "(grammatical t \<longrightarrow>
      ParsePolyHelper (text_of t @ [NUL]) = (if in_range t then Some (poly_of t, [NUL]) else None)) \<and>
   (grammatical t \<and> \<not> in_range t \<longrightarrow>
      Parse (CVectorOfLine (text_of t)) n = (WrongLine, [diagnostic n ''WRONG POLY''])) \<and>
   (Parse (CVectorOfLine s) n = (PolyLine q, out) \<longrightarrow>
      (\<exists>t'. grammatical t' \<and> in_range t' \<and> s = text_of t'))"
proof (intro conjI impI)
  assume "grammatical t"
  then show "ParsePolyHelper (text_of t @ [NUL]) =
      (if in_range t then Some (poly_of t, [NUL]) else None)"
    by (rule parse_text(1)) simp
next
  assume a: "grammatical t \<and> \<not> in_range t"
  then have "ParsePolyHelper (text_of t @ [NUL]) = None"
    using parse_text(1) [of t "[NUL]"] by simp
  then have "ParsePoly (CVectorOfLine (text_of t)) n = (WrongLine, [diagnostic n ''WRONG POLY''])"
    by (rule ParsePoly_helper_None)
  moreover from a have "\<not> isalpha (first_char (text_of t))"
    using first_char_text by blast
  ultimately show "Parse (CVectorOfLine (text_of t)) n = (WrongLine, [diagnostic n ''WRONG POLY''])"
    by (simp add: Parse_def first_item del: items_CVectorOfLine)
next
  assume "Parse (CVectorOfLine s) n = (PolyLine q, out)"
  from Parse_accept [OF this] show "\<exists>t'. grammatical t' \<and> in_range t' \<and> s = text_of t'"
    by blast
qed

theorem C3_ranges_witness:
  "grammatical (TermSum [Term (Coefficient False ''1'') ''2147483648'']) \<and>
   \<not> in_range (TermSum [Term (Coefficient False ''1'') ''2147483648'']) \<and>
   Parse (CVectorOfLine ''(1,2147483648)'') 3 = (WrongLine, [''ERROR 3 WRONG POLY'' @ [CHR 0x0A]]) \<and>
   grammatical (Coefficient False ''9223372036854775808'') \<and>
   \<not> in_range (Coefficient False ''9223372036854775808'') \<and>
   Parse (CVectorOfLine ''9223372036854775808'') 3 =
     (WrongLine, [''ERROR 3 WRONG POLY'' @ [CHR 0x0A]]) \<and>
   grammatical (Coefficient True ''9223372036854775808'') \<and>
   in_range (Coefficient True ''9223372036854775808'') \<and>
   ParsePolyHelper (''-9223372036854775808'' @ [NUL]) =
     Some (PolyCoeff (- 9223372036854775808), [NUL]) \<and>
   grammatical (TermSum [Term (Coefficient False ''1'') ''2147483647'']) \<and>
   in_range (TermSum [Term (Coefficient False ''1'') ''2147483647'']) \<and>
   ParsePolyHelper (''(1,2147483647)'' @ [NUL]) =
     Some (PolyMonos [Mono (PolyCoeff 1) 2147483647], [NUL])"
proof -
  note ev = digits_def isdigit_def coefficient_value_def digits_val_def digit_val_def
    diagnostic_def digit_char_def PolyFromCoeff_def MonoFromPoly_def PolyAddMonos_def
  let ?t1 = "TermSum [Term (Coefficient False ''1'') ''2147483648'']"
  let ?t2 = "Coefficient False ''9223372036854775808''"
  let ?t3 = "Coefficient True ''9223372036854775808''"
  let ?t4 = "TermSum [Term (Coefficient False ''1'') ''2147483647'']"
  have g: "grammatical ?t1" "grammatical ?t2" "grammatical ?t3" "grammatical ?t4"
    by (simp_all add: ev)
  have r: "\<not> in_range ?t1" "\<not> in_range ?t2" "in_range ?t3" "in_range ?t4"
    by (simp_all add: ev)
  from C3_ranges [of ?t1 3] g(1) r(1)
  have "Parse (CVectorOfLine ''(1,2147483648)'') 3 =
      (WrongLine, [''ERROR 3 WRONG POLY'' @ [CHR 0x0A]])"
    by (simp add: ev)
  moreover from C3_ranges [of ?t2 3] g(2) r(2)
  have "Parse (CVectorOfLine ''9223372036854775808'') 3 =
      (WrongLine, [''ERROR 3 WRONG POLY'' @ [CHR 0x0A]])"
    by (simp add: ev)
  moreover from C3_ranges [of ?t3 3] g(3) r(3)
  have "ParsePolyHelper (''-9223372036854775808'' @ [NUL]) =
      Some (PolyCoeff (- 9223372036854775808), [NUL])"
    by (simp add: ev)
  moreover from C3_ranges [of ?t4 3] g(4) r(4)
  have "ParsePolyHelper (''(1,2147483647)'' @ [NUL]) =
      Some (PolyMonos [Mono (PolyCoeff 1) 2147483647], [NUL])"
    by (simp add: ev)
  ultimately show ?thesis using g r by blast
qed

section \<open>Characters after the polynomial\<close>

text \<open>
  C7: when the structural parser returns a polynomial and stops before the last stored
  byte of the line (the end pointer is not at the terminating NUL), the line is rejected
  with the diagnostic \<^verbatim>\<open>WRONG POLY\<close> and no polynomial is returned.
\<close>

theorem C7_trailing_characters:
  assumes "ParsePolyHelper (items (CVectorOfLine s)) = Some (q, e)" and "e \<noteq> [NUL]"
  shows "ParsePoly (CVectorOfLine s) n = (WrongLine, [diagnostic n ''WRONG POLY'']) \<and>
         (\<not> isalpha (first_char s) \<longrightarrow>
            Parse (CVectorOfLine s) n = (WrongLine, [diagnostic n ''WRONG POLY'']))"
proof -
  have "\<not> (\<exists>q'. ParsePoly (CVectorOfLine s) n = (PolyLine q', []))"
  proof
    assume "\<exists>q'. ParsePoly (CVectorOfLine s) n = (PolyLine q', [])"
    then obtain q' where acc: "ParsePoly (CVectorOfLine s) n = (PolyLine q', [])" by blast
    then have legal: "\<not> HasIllegalCharacters (CVectorOfLine s)"
      by (auto simp: ParsePoly_def split: if_splits)
    with NUL_not_legal have nn: "NUL \<notin> set s"
      by (auto simp: HasIllegalCharacters_iff)
    from acc legal assms(1) have "peek e = NUL"
      by (auto simp: ParsePoly_def split: if_splits)
    from line_end [OF _ nn this] assms show False by simp
  qed
  with ParsePoly_cases [of "CVectorOfLine s" n]
  have "ParsePoly (CVectorOfLine s) n = (WrongLine, [diagnostic n ''WRONG POLY''])"
    by blast
  then show ?thesis
    by (simp add: Parse_def first_item del: items_CVectorOfLine)
qed

theorem C7_trailing_characters_witness:
  "ParsePolyHelper (items (CVectorOfLine ''(1,2),'')) = Some (PolyMonos [Mono (PolyCoeff 1) 2], '','' @ [NUL]) \<and>
   '','' @ [NUL] \<noteq> [NUL] \<and>
   \<not> isalpha (first_char ''(1,2),'') \<and>
   Parse (CVectorOfLine ''(1,2),'') 6 = (WrongLine, [''ERROR 6 WRONG POLY'' @ [CHR 0x0A]])"
proof -
  have h: "ParsePolyHelper (items (CVectorOfLine ''(1,2),'')) =
      Some (PolyMonos [Mono (PolyCoeff 1) 2], '','' @ [NUL])"
    by (simp add: line_eval)
  have ne: "'','' @ [NUL] \<noteq> [NUL]" by simp
  have na: "\<not> isalpha (first_char ''(1,2),'')"
    by (simp add: first_char_def isalpha_def)
  from C7_trailing_characters [OF h ne, of 6] na
  have "Parse (CVectorOfLine ''(1,2),'') 6 = (WrongLine, [''ERROR 6 WRONG POLY'' @ [CHR 0x0A]])"
    by (simp add: diagnostic_def digit_char_def)
  with h ne na show ?thesis by blast
qed

end
